theory Spec2Isabelle
  imports Main "HOL-Library.Word" "HOL-Library.Multiset"
begin

unbundle bit_operations_syntax

section \<open>Limb sequences\<close>

text \<open>
  A \<open>LimbSeq<N>\<close> is a little-endian array of \<open>N\<close> limbs of type \<open>LIMB_T\<close>.
  A limb is a machine word of width \<open>W = LENGTH('a)\<close>, the sequence a list whose
  length is \<open>LIMB_N\<close>. \<open>seq_val\<close> is the number the array denotes; it is used to
  state properties only.
\<close>

type_synonym 'a limbs = "'a word list"

fun seq_val :: "'a::len limbs \<Rightarrow> nat" where
  "seq_val [] = 0"
| "seq_val (x # xs) = unat x + 2 ^ LENGTH('a) * seq_val xs"

datatype CmpEnum = Lt | Eq | Gt

text \<open>
  Modelled from the spec: \<open>utils::seq_add<LIMB_N>\<close> of \<open>gec/utils/sequence.hpp\<close>,
  missing from the sources. Ripple-carry addition from limb 0 upwards; every limb sum is
  taken in a wider type, the low \<open>W\<close> bits are stored and the overflow is the carry into
  the next limb. The result is the array of sums and the carry out of the top limb.
\<close>

fun add_with_carry :: "bool \<Rightarrow> 'a::len limbs \<Rightarrow> 'a limbs \<Rightarrow> 'a limbs \<times> bool" where
  "add_with_carry c (x # xs) (y # ys) =
     (let t = unat x + unat y + (if c then 1 else 0);
          (r, c') = add_with_carry (2 ^ LENGTH('a) \<le> t) xs ys
      in (of_nat t # r, c'))"
| "add_with_carry c _ _ = ([], c)"

definition seq_add :: "'a::len limbs \<Rightarrow> 'a limbs \<Rightarrow> 'a limbs \<times> bool" where
  "seq_add a b = add_with_carry False a b"

text \<open>
  Modelled from the spec: \<open>utils::seq_sub<LIMB_N>\<close> of \<open>gec/utils/sequence.hpp\<close>,
  missing from the sources. Ripple-borrow subtraction from limb 0 upwards; the result is
  the array of differences (each modulo \<open>2^W\<close>) and the borrow out of the top limb.
\<close>

fun sub_with_borrow :: "bool \<Rightarrow> 'a::len limbs \<Rightarrow> 'a limbs \<Rightarrow> 'a limbs \<times> bool" where
  "sub_with_borrow c (x # xs) (y # ys) =
     (let s = unat y + (if c then 1 else 0);
          (r, c') = sub_with_borrow (unat x < s) xs ys
      in (of_nat (unat x + 2 ^ LENGTH('a) - s) # r, c'))"
| "sub_with_borrow c _ _ = ([], c)"

definition seq_sub :: "'a::len limbs \<Rightarrow> 'a limbs \<Rightarrow> 'a limbs \<times> bool" where
  "seq_sub a b = sub_with_borrow False a b"

text \<open>
  Modelled from the spec: \<open>utils::VtSeqCmp<LIMB_N, LIMB_T>::call\<close> of
  \<open>gec/utils/sequence.hpp\<close>, missing from the sources. Lexicographic comparison from the
  most significant limb down: the limbs above decide, and only when they are all equal
  does the current limb.
\<close>

fun VtSeqCmp :: "'a::len limbs \<Rightarrow> 'a limbs \<Rightarrow> CmpEnum" where
  "VtSeqCmp (x # xs) (y # ys) =
     (case VtSeqCmp xs ys of
        Eq \<Rightarrow> (if x < y then Lt else if y < x then Gt else Eq)
      | r \<Rightarrow> r)"
| "VtSeqCmp _ _ = Eq"

text \<open>
  Modelled from the spec: \<open>utils::seq_shift_left<LIMB_N, K>\<close> of
  \<open>gec/utils/sequence.hpp\<close>, missing from the sources. Logical left shift of the whole
  array by \<open>K\<close> bits; the bits shifted out of the top limb are lost. A shift by one bit
  moves the top bit of every limb into bit 0 of the next limb, and a shift by \<open>K\<close> bits
  is \<open>K\<close> of them.
\<close>

fun shift_left_1 :: "bool \<Rightarrow> 'a::len limbs \<Rightarrow> 'a limbs" where
  "shift_left_1 c [] = []"
| "shift_left_1 c (x # xs) =
     (push_bit 1 x OR (if c then 1 else 0)) # shift_left_1 (bit x (LENGTH('a) - 1)) xs"

definition seq_shift_left :: "nat \<Rightarrow> 'a::len limbs \<Rightarrow> 'a limbs" where
  "seq_shift_left K a = (shift_left_1 False ^^ K) a"

section \<open>Add-group over a modulus\<close>

text \<open>
  \<open>ModAddSub<Core, LIMB_T, LIMB_N, MOD>\<close>: the template argument \<open>MOD\<close> is the limb
  array of the modulus and is the first argument of every operation below. The output
  parameter of the source is the result of the function.
\<close>

definition ModAddSub_add :: "'a::len limbs \<Rightarrow> 'a limbs \<Rightarrow> 'a limbs \<Rightarrow> 'a limbs" where
  "ModAddSub_add MOD b c =
     (let (a, carry) = seq_add b c
      in if carry \<or> VtSeqCmp a MOD \<noteq> Lt then fst (seq_sub a MOD) else a)"

text \<open>
  \<open>MulPow2Helper<Core, K, LIMB_T, LIMB_N, MOD>::call\<close>: the general template
  recurses on \<open>K - 1\<close>, the specialisation for \<open>K = 0\<close> does nothing.
\<close>

fun MulPow2Helper :: "'a::len limbs \<Rightarrow> nat \<Rightarrow> 'a limbs \<Rightarrow> 'a limbs" where
  "MulPow2Helper MOD 0 a = a"
| "MulPow2Helper MOD (Suc K) a =
     (let Idx = length MOD - 1;
          Mask = push_bit (LENGTH('a) - 1) (1 :: 'a word);
          carry = (a ! Idx AND Mask \<noteq> 0);
          a1 = seq_shift_left 1 a;
          a2 = (if carry \<or> VtSeqCmp a1 MOD \<noteq> Lt then fst (seq_sub a1 MOD) else a1)
      in MulPow2Helper MOD K a2)"

definition ModAddSub_mul_pow2 :: "'a::len limbs \<Rightarrow> nat \<Rightarrow> 'a limbs \<Rightarrow> 'a limbs" where
  "ModAddSub_mul_pow2 MOD K a = MulPow2Helper MOD K a"

definition ModAddSub_add_self :: "'a::len limbs \<Rightarrow> 'a limbs \<Rightarrow> 'a limbs" where
  "ModAddSub_add_self MOD a = MulPow2Helper MOD 1 a"

text \<open>
  \<open>CarryFreeMulPow2Helper<Core, K, LIMB_T, LIMB_N, MOD>::call\<close>: shifts by \<open>K\<close>
  bits, subtracts the modulus once if the result is not below it, and then calls the
  helper for \<open>K - 1\<close>.
\<close>

fun CarryFreeMulPow2Helper :: "'a::len limbs \<Rightarrow> nat \<Rightarrow> 'a limbs \<Rightarrow> 'a limbs" where
  "CarryFreeMulPow2Helper MOD 0 a = a"
| "CarryFreeMulPow2Helper MOD (Suc K) a =
     (let a1 = seq_shift_left (Suc K) a;
          a2 = (if VtSeqCmp a1 MOD \<noteq> Lt then fst (seq_sub a1 MOD) else a1)
      in CarryFreeMulPow2Helper MOD K a2)"

definition ModAddSubMixinCarryFree_mul_pow2 ::
  "'a::len limbs \<Rightarrow> nat \<Rightarrow> 'a limbs \<Rightarrow> 'a limbs" where
  "ModAddSubMixinCarryFree_mul_pow2 MOD K a = CarryFreeMulPow2Helper MOD K a"

text \<open>
  Modelled from the spec: \<open>Core::is_zero\<close> and \<open>Core::set_zero\<close> of the big-integer
  array, which \<open>ModAddSub\<close> requires and the sources do not contain. \<open>is_zero\<close> holds
  when every limb is zero, \<open>set_zero\<close> clears every limb.
\<close>

definition is_zero :: "'a::len limbs \<Rightarrow> bool" where
  "is_zero a = list_all (\<lambda>l. l = 0) a"

definition set_zero :: "nat \<Rightarrow> 'a::len limbs" where
  "set_zero LIMB_N = replicate LIMB_N 0"

definition ModAddSub_neg :: "'a::len limbs \<Rightarrow> 'a limbs \<Rightarrow> 'a limbs" where
  "ModAddSub_neg MOD b =
     (if is_zero b then set_zero (length MOD) else fst (seq_sub MOD b))"

definition ModAddSub_sub :: "'a::len limbs \<Rightarrow> 'a limbs \<Rightarrow> 'a limbs \<Rightarrow> 'a limbs" where
  "ModAddSub_sub MOD b c =
     (let (a, borrow) = seq_sub b c
      in if borrow then fst (seq_add a MOD) else a)"

section \<open>Prime field in Montgomery form\<close>

text \<open>
  Modelled from the spec: the Montgomery operations of the prime field (\<open>mul\<close>,
  \<open>inv\<close>, \<open>is_mul_id\<close>, \<open>set_mul_id\<close>), whose mixins are missing from the sources.
  With \<open>R = 2^(N*W)\<close>, \<open>mul(a, b) = a * b * R^-1 mod M\<close>, \<open>inv\<close> maps \<open>a * R\<close> to
  \<open>a^-1 * R\<close>, that is \<open>inv(v) = v^-1 * R^2 mod M\<close> (with \<open>R\<close> reduced modulo
  \<open>M\<close> before it is multiplied), and the multiplicative identity
  is \<open>R mod M\<close>. \<open>nat_to_seq n v\<close> is the array of the \<open>n\<close> low limbs of \<open>v\<close>.
\<close>

fun nat_to_seq :: "nat \<Rightarrow> nat \<Rightarrow> 'a::len limbs" where
  "nat_to_seq 0 v = []"
| "nat_to_seq (Suc n) v = of_nat v # nat_to_seq n (v div 2 ^ LENGTH('a))"

definition mod_inverse :: "nat \<Rightarrow> nat \<Rightarrow> nat" where
  "mod_inverse M v =
     (case find (\<lambda>t. (t * v) mod M = 1) [0..<M] of Some t \<Rightarrow> t | None \<Rightarrow> 0)"

definition montgomery_R :: "'a::len limbs \<Rightarrow> nat" where
  "montgomery_R MOD = 2 ^ (LENGTH('a) * length MOD)"

definition Montgomery_mul :: "'a::len limbs \<Rightarrow> 'a limbs \<Rightarrow> 'a limbs \<Rightarrow> 'a limbs" where
  "Montgomery_mul MOD b c =
     nat_to_seq (length MOD)
       ((seq_val b * seq_val c * mod_inverse (seq_val MOD) (montgomery_R MOD mod seq_val MOD))
          mod seq_val MOD)"

definition Montgomery_inv :: "'a::len limbs \<Rightarrow> 'a limbs \<Rightarrow> 'a limbs" where
  "Montgomery_inv MOD a =
     (let r = montgomery_R MOD mod seq_val MOD
      in nat_to_seq (length MOD)
           ((mod_inverse (seq_val MOD) (seq_val a) * r * r) mod seq_val MOD))"

definition set_mul_id :: "'a::len limbs \<Rightarrow> 'a limbs" where
  "set_mul_id MOD = nat_to_seq (length MOD) (montgomery_R MOD mod seq_val MOD)"

definition is_mul_id :: "'a::len limbs \<Rightarrow> 'a limbs \<Rightarrow> bool" where
  "is_mul_id MOD a = (a = set_mul_id MOD)"

text \<open>
  The curve mixins take the field as the template parameter \<open>FIELD_T\<close> and use its
  static operations only. \<open>FIELD_T\<close> is the record of these operations; the two-argument
  forms \<open>add(a, b)\<close>, \<open>sub(a, b)\<close> of the source update \<open>a\<close> in place and are the
  three-argument forms applied to the old value of \<open>a\<close>. \<open>PrimeField MOD\<close> is the field over
  the modulus \<open>MOD\<close>: the add-group operations above with the Montgomery operations.
\<close>

record 'f FIELD_T =
  F_add :: "'f \<Rightarrow> 'f \<Rightarrow> 'f"
  F_sub :: "'f \<Rightarrow> 'f \<Rightarrow> 'f"
  F_neg :: "'f \<Rightarrow> 'f"
  F_mul :: "'f \<Rightarrow> 'f \<Rightarrow> 'f"
  F_inv :: "'f \<Rightarrow> 'f"
  F_mul_pow2 :: "nat \<Rightarrow> 'f \<Rightarrow> 'f"
  F_is_zero :: "'f \<Rightarrow> bool"
  F_set_zero :: "'f"
  F_is_mul_id :: "'f \<Rightarrow> bool"
  F_set_mul_id :: "'f"

definition PrimeField :: "'a::len limbs \<Rightarrow> 'a limbs FIELD_T" where
  "PrimeField MOD =
     \<lparr>F_add = ModAddSub_add MOD, F_sub = ModAddSub_sub MOD, F_neg = ModAddSub_neg MOD,
      F_mul = Montgomery_mul MOD, F_inv = Montgomery_inv MOD,
      F_mul_pow2 = ModAddSub_mul_pow2 MOD, F_is_zero = is_zero,
      F_set_zero = set_zero (length MOD), F_is_mul_id = is_mul_id MOD,
      F_set_mul_id = set_mul_id MOD\<rparr>"

section \<open>Jacobian coordinates\<close>

text \<open>
  \<open>Jacobain<Core, FIELD_T, A, B>\<close>: a point is the triple of its coordinates
  \<open>x()\<close>, \<open>y()\<close>, \<open>z()\<close>. The output parameter \<open>a\<close> is declared not to alias the
  inputs, so every operation is a function of its inputs; the scratch slots of the context
  appear as local names, bound in the order of the statements of the source.
\<close>

record 'f point =
  pt_x :: 'f
  pt_y :: 'f
  pt_z :: 'f

definition is_inf :: "'f FIELD_T \<Rightarrow> 'f point \<Rightarrow> bool" where
  "is_inf F a = F_is_zero F (pt_z a)"

definition set_inf :: "'f FIELD_T \<Rightarrow> 'f point" where
  "set_inf F = \<lparr>pt_x = F_set_zero F, pt_y = F_set_zero F, pt_z = F_set_zero F\<rparr>"

text \<open>
  \<open>add_distinct_inner\<close> reads the slots 0 to 3 of the context, which hold
  \<open>x1 z2^2\<close>, \<open>x2 z1^2\<close>, \<open>y1 z2^3\<close> and \<open>y2 z1^3\<close>.
\<close>

definition add_distinct_inner ::
  "'f FIELD_T \<Rightarrow> 'f point \<Rightarrow> 'f point \<Rightarrow> 'f \<Rightarrow> 'f \<Rightarrow> 'f \<Rightarrow> 'f \<Rightarrow> 'f point" where
  "add_distinct_inner F b c t1 t2 t3 t4 =
     (let t2 = F_sub F t2 t1;
          t4 = F_sub F t4 t3;
          az = F_mul F t2 t2;
          ay = F_mul F t1 az;
          t1 = F_mul F az t2;
          az = F_mul F t3 t1;
          t3 = F_add F ay ay;
          ax = F_mul F t4 t4;
          ax = F_sub F ax t3;
          ax = F_sub F ax t1;
          t1 = F_sub F ay ax;
          ay = F_mul F t4 t1;
          ay = F_sub F ay az;
          t1 = F_mul F (pt_z b) (pt_z c);
          az = F_mul F t1 t2
      in \<lparr>pt_x = ax, pt_y = ay, pt_z = az\<rparr>)"

definition to_affine :: "'f FIELD_T \<Rightarrow> 'f point \<Rightarrow> 'f point" where
  "to_affine F a =
     (if is_inf F a \<or> F_is_mul_id F (pt_z a) then a
      else
        let az = F_inv F (pt_z a);
            t1 = F_mul F az az;
            t2 = F_mul F (pt_x a) t1;
            ax = t2;
            t2 = F_mul F t1 az;
            t1 = F_mul F (pt_y a) t2;
            ay = t1
        in \<lparr>pt_x = ax, pt_y = ay, pt_z = az\<rparr>)"

definition from_affine :: "'f FIELD_T \<Rightarrow> 'f point \<Rightarrow> 'f point" where
  "from_affine F a = a\<lparr>pt_z := F_set_mul_id F\<rparr>"

definition add_distinct :: "'f FIELD_T \<Rightarrow> 'f point \<Rightarrow> 'f point \<Rightarrow> 'f point" where
  "add_distinct F b c =
     (let tc = F_mul F (pt_z c) (pt_z c);
          t = F_mul F tc (pt_z c);
          ta = F_mul F tc (pt_x b);
          tc = F_mul F t (pt_y b);
          td = F_mul F (pt_z b) (pt_z b);
          t = F_mul F td (pt_z b);
          tb = F_mul F td (pt_x c);
          td = F_mul F t (pt_y c)
      in add_distinct_inner F b c ta tb tc td)"

definition add_self :: "'f FIELD_T \<Rightarrow> 'f \<Rightarrow> 'f point \<Rightarrow> 'f point" where
  "add_self F A b =
     (let t5 = F_mul F (pt_z b) (pt_z b);
          t4 = F_mul F t5 t5;
          t5 = F_mul F A t4;
          t4 = F_mul F (pt_x b) (pt_x b);
          t5 = F_add F t5 t4;
          t5 = F_add F t5 t4;
          t5 = F_add F t5 t4;
          az = F_mul F (pt_y b) (pt_y b);
          t4 = F_mul F (pt_x b) az;
          t4 = F_mul_pow2 F 2 t4;
          ay = F_add F t4 t4;
          ax = F_mul F t5 t5;
          ax = F_sub F ax ay;
          t4 = F_sub F t4 ax;
          ay = F_mul F t5 t4;
          t4 = F_mul F az az;
          t4 = F_mul_pow2 F 3 t4;
          ay = F_sub F ay t4;
          az = F_mul F (pt_y b) (pt_z b);
          az = F_mul_pow2 F 1 az
      in \<lparr>pt_x = ax, pt_y = ay, pt_z = az\<rparr>)"

definition Jacobain_add :: "'f FIELD_T \<Rightarrow> 'f \<Rightarrow> 'f point \<Rightarrow> 'f point \<Rightarrow> 'f point" where
  "Jacobain_add F A b c =
     (if is_inf F b then c
      else if is_inf F c then b
      else
        let tc = F_mul F (pt_z c) (pt_z c);
            t = F_mul F tc (pt_z c);
            ta = F_mul F tc (pt_x b);
            tc = F_mul F t (pt_y b);
            td = F_mul F (pt_z b) (pt_z b);
            t = F_mul F td (pt_z b);
            tb = F_mul F td (pt_x c);
            td = F_mul F t (pt_y c)
        in if ta = tb \<and> tc = td then add_self F A b
           else add_distinct_inner F b c ta tb tc td)"

definition Jacobain_neg :: "'f FIELD_T \<Rightarrow> 'f point \<Rightarrow> 'f point" where
  "Jacobain_neg F b = \<lparr>pt_x = pt_y b, pt_y = F_neg F (pt_y b), pt_z = pt_z b\<rparr>"

section \<open>Pollard lambda\<close>

text \<open>
  \<open>pollard_lambda<S, P, Rng, Ctx>\<close> is written against the static operations of the
  scalar type \<open>S\<close>, of the point type \<open>P\<close> and against \<open>rng.sample\<close>. \<open>SCALAR_T\<close> and
  \<open>POINT_T\<close> are the records of the operations it uses; \<open>P_x_limb0 p\<close> is
  \<open>p.x().array()[0]\<close>, and the random generator is a state of type \<open>'r\<close> that every
  sampling operation takes and returns. \<open>S_limb_bits\<close> is the width of the limb type
  \<open>S::LimbT\<close> and \<open>P_field_limb_bits\<close> the width of \<open>P::Field::LimbT\<close>: a
  conversion to either type keeps the value modulo two to that width. The division
  \<open>% m\<close> by zero and an index outside the jump table are errors of the model.
\<close>

datatype lambda_error = DivisionByZero | IndexOutOfRange

record ('s, 'r) SCALAR_T =
  S_add :: "'s \<Rightarrow> 's \<Rightarrow> 's"
  S_sub :: "'s \<Rightarrow> 's \<Rightarrow> 's"
  S_less :: "'s \<Rightarrow> 's \<Rightarrow> bool"
  S_set_zero :: "'s"
  S_set_one :: "'s"
  S_set_pow2 :: "nat \<Rightarrow> 's"
  S_most_significant_bit :: "'s \<Rightarrow> nat"
  S_sample_inclusive :: "'s \<Rightarrow> 's \<Rightarrow> 'r \<Rightarrow> 's \<times> 'r"
  S_limb_bits :: "nat"

record ('s, 'p) POINT_T =
  P_mul :: "'s \<Rightarrow> 'p \<Rightarrow> 'p"
  P_add :: "'p \<Rightarrow> 'p \<Rightarrow> 'p"
  P_eq :: "'p \<Rightarrow> 'p \<Rightarrow> bool"
  P_x_limb0 :: "'p \<Rightarrow> nat"
  P_field_limb_bits :: "nat"

text \<open>
  Modelled from the spec: \<open>most_significant_bit()\<close>, \<open>set_pow2(e)\<close> and \<open>set_one()\<close>
  of the big-integer array, missing from the sources: the 1-based position of the highest
  set bit (0 for zero), the value \<open>2^e\<close>, and the value 1. \<open>Scalar MOD smp\<close> is the scalar
  type over the add-group modulo \<open>MOD\<close>, with \<open>smp\<close> for \<open>sample_inclusive\<close>, whose
  source is missing as well.
\<close>

fun bit_length :: "nat \<Rightarrow> nat" where
  "bit_length n = (if n = 0 then 0 else Suc (bit_length (n div 2)))"

declare bit_length.simps [simp del]

definition most_significant_bit :: "'a::len limbs \<Rightarrow> nat" where
  "most_significant_bit a = bit_length (seq_val a)"

definition set_pow2 :: "nat \<Rightarrow> nat \<Rightarrow> 'a::len limbs" where
  "set_pow2 LIMB_N e = nat_to_seq LIMB_N (2 ^ e)"

definition set_one :: "nat \<Rightarrow> 'a::len limbs" where
  "set_one LIMB_N = nat_to_seq LIMB_N 1"

definition Scalar ::
  "'a::len limbs \<Rightarrow> ('a limbs \<Rightarrow> 'a limbs \<Rightarrow> 'r \<Rightarrow> 'a limbs \<times> 'r) \<Rightarrow> ('a limbs, 'r) SCALAR_T" where
  "Scalar MOD smp =
     \<lparr>S_add = ModAddSub_add MOD, S_sub = ModAddSub_sub MOD,
      S_less = (\<lambda>a b. VtSeqCmp a b = Lt), S_set_zero = set_zero (length MOD),
      S_set_one = set_one (length MOD), S_set_pow2 = set_pow2 (length MOD),
      S_most_significant_bit = most_significant_bit, S_sample_inclusive = smp,
      S_limb_bits = LENGTH('a)\<rparr>"

text \<open>
  The length of the jump table: \<open>S::sub(x, b, a)\<close> followed by
  \<open>size_t m = x.most_significant_bit() - 1\<close>, in 64-bit unsigned arithmetic.
\<close>

definition table_size :: "('s, 'r) SCALAR_T \<Rightarrow> 's \<Rightarrow> 's \<Rightarrow> nat" where
  "table_size S a b =
     (let x = S_sub S b a
      in unat ((of_nat (S_most_significant_bit S x) :: 64 word) - 1))"

text \<open>
  The jump table. The first loop stores \<open>typename S::LimbT(i)\<close>, that is \<open>i\<close> modulo
  \<open>2^W\<close> for the width \<open>W\<close> of \<open>S::LimbT\<close>, in limb 0 of \<open>sl[i]\<close>; the second
  loop, for \<open>ri = m - 1\<close> down to \<open>0\<close>, swaps limb 0 of \<open>sl[ri]\<close> with limb 0 of
  \<open>sl[rng.sample(ri)]\<close>; the third loop reads limb 0 of \<open>sl[i]\<close> into
  \<open>typename F::LimbT e\<close> (the limb type of the field of \<open>P\<close>, which truncates again),
  replaces \<open>sl[i]\<close> by \<open>2^e\<close> and sets \<open>pl[i]\<close> to \<open>sl[i] * g\<close>. Only limb 0 of the
  entries is read before they are overwritten, so the first two loops work on the list of
  the limb-0 values. The arrays \<open>sl\<close> and \<open>pl\<close> hold \<open>m\<close> entries, as in
  \<open>SharedData\<close>; an index beyond them is the error \<open>IndexOutOfRange\<close>.
\<close>

fun shuffle ::
  "(nat \<Rightarrow> 'r \<Rightarrow> nat \<times> 'r) \<Rightarrow> nat \<Rightarrow> nat list \<Rightarrow> 'r \<Rightarrow> lambda_error + nat list \<times> 'r" where
  "shuffle sample 0 e rng = Inr (e, rng)"
| "shuffle sample (Suc ri) e rng =
     (let (j, rng) = sample ri rng
      in if ri < length e \<and> j < length e
         then shuffle sample ri (e[ri := e ! j, j := e ! ri]) rng
         else Inl IndexOutOfRange)"

definition jump_table ::
  "('s, 'r) SCALAR_T \<Rightarrow> ('s, 'p) POINT_T \<Rightarrow> (nat \<Rightarrow> 'r \<Rightarrow> nat \<times> 'r) \<Rightarrow> nat \<Rightarrow> 'p \<Rightarrow> 'r \<Rightarrow>
     lambda_error + 's list \<times> 'p list \<times> 'r" where
  "jump_table S P sample m g rng =
     (case shuffle sample m (map (\<lambda>i. i mod 2 ^ S_limb_bits S) [0..<m]) rng of
        Inl err \<Rightarrow> Inl err
      | Inr (l, rng) \<Rightarrow>
          (let e = map (\<lambda>v. v mod 2 ^ P_field_limb_bits P) l
           in Inr (map (S_set_pow2 S) e, map (\<lambda>i. P_mul P (S_set_pow2 S i) g) e, rng)))"

text \<open>
  Worker 0 of the multithreaded solver builds the table with the same three loops, on the
  shared vectors \<open>data.sl\<close> and \<open>data.pl\<close> and with \<open>m = data.sl.size()\<close>; the other
  workers leave the vectors as they are.
\<close>

definition worker_jump_table ::
  "('s, 'r) SCALAR_T \<Rightarrow> ('s, 'p) POINT_T \<Rightarrow> (nat \<Rightarrow> 'r \<Rightarrow> nat \<times> 'r) \<Rightarrow> nat \<Rightarrow>
     's list \<Rightarrow> 'p list \<Rightarrow> 'p \<Rightarrow> 'r \<Rightarrow> lambda_error + 's list \<times> 'p list \<times> 'r" where
  "worker_jump_table S P sample worker_id sl pl g rng =
     (let m = length sl
      in if worker_id = 0 then jump_table S P sample m g rng else Inr (sl, pl, rng))"

text \<open>
  The two walks are the \<open>for\<close> loops over the scalar counter \<open>idx\<close>, from zero while
  \<open>idx < bound\<close> in steps of \<open>S::add(idx, one)\<close>; \<open>pollard_lambda\<close> is the enclosing
  \<open>while (true)\<close>. A loop that does not end has the value \<open>None\<close>. The tame walk
  returns the scalar \<open>x\<close> and the point \<open>u\<close> it ends with; the wild walk returns
  \<open>x - d\<close> when it finds \<open>u = v\<close> and nothing when it runs out of steps.
\<close>

partial_function (option) tame_walk ::
  "('s, 'r) SCALAR_T \<Rightarrow> ('s, 'p) POINT_T \<Rightarrow> nat \<Rightarrow> 's list \<Rightarrow> 'p list \<Rightarrow> 's \<Rightarrow>
     's \<Rightarrow> 's \<Rightarrow> 'p \<Rightarrow> (lambda_error + 's \<times> 'p) option" where
  "tame_walk S P m sl pl bound idx x u =
     (if S_less S idx bound
      then if m = 0 then Some (Inl DivisionByZero)
           else let i = P_x_limb0 P u mod m
                in tame_walk S P m sl pl bound (S_add S idx (S_set_one S))
                     (S_add S x (sl ! i)) (P_add P u (pl ! i))
      else Some (Inr (x, u)))"

partial_function (option) wild_walk ::
  "('s, 'r) SCALAR_T \<Rightarrow> ('s, 'p) POINT_T \<Rightarrow> nat \<Rightarrow> 's list \<Rightarrow> 'p list \<Rightarrow> 's \<Rightarrow>
     's \<Rightarrow> 'p \<Rightarrow> 's \<Rightarrow> 's \<Rightarrow> 'p \<Rightarrow> (lambda_error + 's option) option" where
  "wild_walk S P m sl pl bound x u idx d v =
     (if S_less S idx bound
      then if P_eq P u v then Some (Inr (Some (S_sub S x d)))
           else if m = 0 then Some (Inl DivisionByZero)
           else let j = P_x_limb0 P v mod m
                in wild_walk S P m sl pl bound x u (S_add S idx (S_set_one S))
                     (S_add S d (sl ! j)) (P_add P v (pl ! j))
      else Some (Inr None))"

partial_function (option) pollard_lambda ::
  "('s, 'r) SCALAR_T \<Rightarrow> ('s, 'p) POINT_T \<Rightarrow> (nat \<Rightarrow> 'r \<Rightarrow> nat \<times> 'r) \<Rightarrow> 's \<Rightarrow> 's \<Rightarrow> 's \<Rightarrow>
     'p \<Rightarrow> 'p \<Rightarrow> 'r \<Rightarrow> (lambda_error + 's) option" where
  "pollard_lambda S P sample bound a b g h rng =
     (let m = table_size S a b
      in case jump_table S P sample m g rng of
           Inl err \<Rightarrow> Some (Inl err)
         | Inr (sl, pl, rng) \<Rightarrow>
             (let (x, rng) = S_sample_inclusive S a b rng;
                  u = P_mul P x g
              in case tame_walk S P m sl pl bound (S_set_zero S) x u of
                   None \<Rightarrow> None
                 | Some (Inl err) \<Rightarrow> Some (Inl err)
                 | Some (Inr (x, u)) \<Rightarrow>
                     (case wild_walk S P m sl pl bound x u (S_set_zero S) (S_set_zero S) h of
                        None \<Rightarrow> None
                      | Some (Inl err) \<Rightarrow> Some (Inl err)
                      | Some (Inr (Some x)) \<Rightarrow> Some (Inr x)
                      | Some (Inr None) \<Rightarrow> pollard_lambda S P sample bound a b g h rng)))"

declare tame_walk.simps [code]
declare wild_walk.simps [code]
declare pollard_lambda.simps [code]

text \<open>
  A small instance of \<open>S\<close>, \<open>P\<close> and \<open>Rng\<close>: scalars modulo 16, the cyclic group of
  order 16 written additively, and a linear congruential generator.
\<close>

definition Z16_scalar :: "(4 word, nat) SCALAR_T" where
  "Z16_scalar =
     \<lparr>S_add = (+), S_sub = (-), S_less = (<), S_set_zero = 0, S_set_one = 1,
      S_set_pow2 = (\<lambda>e. 2 ^ e), S_most_significant_bit = (\<lambda>x. bit_length (unat x)),
      S_sample_inclusive =
        (\<lambda>a b r. (a + of_nat (r mod (unat (b - a) + 1)), (5 * r + 3) mod 16)),
      S_limb_bits = 4\<rparr>"

definition Z16_point :: "(4 word, 4 word) POINT_T" where
  "Z16_point =
     \<lparr>P_mul = (*), P_add = (+), P_eq = (=), P_x_limb0 = unat, P_field_limb_bits = 4\<rparr>"

definition lcg_sample :: "nat \<Rightarrow> nat \<Rightarrow> nat \<times> nat" where
  "lcg_sample u r = (r mod (u + 1), (5 * r + 3) mod 16)"

text \<open>
  A point type over the scalars of \<open>Scalar MOD smp\<close>: the integers modulo \<open>2^8\<close> under
  addition, with \<open>k * p\<close> for the scalar multiple.
\<close>

definition limb_point :: "(8 limbs, 8 word) POINT_T" where
  "limb_point =
     \<lparr>P_mul = (\<lambda>k p. of_nat (seq_val k) * p), P_add = (+), P_eq = (=), P_x_limb0 = unat,
      P_field_limb_bits = 8\<rparr>"

definition sample_lower :: "8 limbs \<Rightarrow> 8 limbs \<Rightarrow> nat \<Rightarrow> 8 limbs \<times> nat" where
  "sample_lower a b r = (a, r)"

text \<open>
  An instance with more bits than a limb can count: scalars of 33 limbs of 8 bits modulo
  \<open>2^264 - 1\<close>, and a generator whose \<open>sample(ri)\<close> is always \<open>ri\<close>.
\<close>

definition wide_MOD :: "8 limbs" where
  "wide_MOD = nat_to_seq 33 (2 ^ 264 - 1)"

definition sample_top :: "nat \<Rightarrow> nat \<Rightarrow> nat \<times> nat" where
  "sample_top u r = (u, r)"

section \<open>Properties of limb sequences\<close>

lemma seq_val_bound: "seq_val (xs :: 'a::len limbs) < 2 ^ (LENGTH('a) * length xs)"
proof (induction xs)
  case Nil
  then show ?case by simp
next
  case (Cons x xs)
  let ?B = "2 ^ LENGTH('a) :: nat"
  have ux: "unat x < ?B" by (rule unsigned_less)
  from Cons.IH have "seq_val xs + 1 \<le> ?B ^ length xs" by (simp add: power_mult)
  then have "?B * (seq_val xs + 1) \<le> ?B * ?B ^ length xs" by (rule mult_le_mono2)
  then have "?B * seq_val xs + ?B \<le> ?B * ?B ^ length xs" by (simp add: algebra_simps)
  with ux have "unat x + ?B * seq_val xs < ?B * ?B ^ length xs" by linarith
  then show ?case by (simp add: power_mult power_add)
qed

lemma length_add_with_carry:
  "length xs = length ys \<Longrightarrow> length (fst (add_with_carry c xs ys)) = length xs"
  by (induction c xs ys rule: add_with_carry.induct) (auto simp: Let_def split: prod.splits)

lemma unat_of_nat_limb: "unat (of_nat t :: 'a::len word) = t mod 2 ^ LENGTH('a)"
  by (simp add: unat_of_nat)

lemma carry_split:
  fixes t B :: nat
  assumes "t < 2 * B"
  shows "t mod B + B * (if B \<le> t then 1 else 0) = t"
proof (cases "B \<le> t")
  case True
  then have "t = (t - B) + B" and "t - B < B" using assms by simp_all
  then have "t mod B = t - B"
    by (metis mod_add_self2 mod_less)
  with True show ?thesis by simp
next
  case False
  then show ?thesis by simp
qed

lemma add_with_carry_val:
  "length xs = length ys \<Longrightarrow>
   seq_val (fst (add_with_carry c xs ys)) +
     (if snd (add_with_carry c xs ys) then 2 ^ (LENGTH('a) * length xs) else 0) =
   seq_val (xs :: 'a::len limbs) + seq_val ys + (if c then 1 else 0)"
proof (induction c xs ys rule: add_with_carry.induct)
  case (1 c x xs y ys)
  define B :: nat where "B = 2 ^ LENGTH('a)"
  define t where "t = unat x + unat y + (if c then 1 else 0)"
  define r where "r = add_with_carry (B \<le> t) xs ys"
  define k :: nat where "k = (if B \<le> t then 1 else 0)"
  define ov :: nat where "ov = (if snd r then 2 ^ (LENGTH('a) * length xs) else 0)"
  have len: "length xs = length ys" using "1.prems" by simp
  have IH: "seq_val (fst r) + ov = seq_val xs + seq_val ys + k"
    using "1.IH"[OF refl len] unfolding B_def t_def r_def k_def ov_def .
  have "unat x < B" "unat y < B" unfolding B_def by (rule unsigned_less)+
  then have tb: "t < 2 * B"
    unfolding t_def by (cases c) simp_all
  have tm: "t mod B + B * k = t"
    unfolding k_def by (rule carry_split[OF tb])
  have unf: "add_with_carry c (x # xs) (y # ys) = (of_nat t # fst r, snd r)"
    by (simp add: Let_def t_def r_def B_def split: prod.splits)
  have "seq_val (fst (add_with_carry c (x # xs) (y # ys))) +
        (if snd (add_with_carry c (x # xs) (y # ys)) then 2 ^ (LENGTH('a) * length (x # xs)) else 0)
      = t mod B + B * (seq_val (fst r) + ov)"
    unfolding unf by (simp add: unat_of_nat_limb B_def ov_def algebra_simps power_add)
  also have "\<dots> = t mod B + B * (seq_val xs + seq_val ys + k)"
    by (simp only: IH)
  also have "\<dots> = (t mod B + B * k) + B * (seq_val xs + seq_val ys)"
    by (simp add: algebra_simps)
  also have "\<dots> = t + B * (seq_val xs + seq_val ys)" by (simp only: tm)
  also have "\<dots> = seq_val (x # xs) + seq_val (y # ys) + (if c then 1 else 0)"
    by (simp add: algebra_simps B_def t_def)
  finally show ?case .
qed simp_all

lemma borrow_split:
  fixes x s B :: nat
  assumes "s \<le> B" "x < B"
  shows "(x + B - s) mod B + s = x + B * (if x < s then 1 else 0)"
proof (cases "x < s")
  case True
  then have "x + B - s < B" using assms by simp
  then show ?thesis using True assms by simp
next
  case False
  then have "x + B - s = (x - s) + B" and "x - s < B" using assms by simp_all
  then have "(x + B - s) mod B = x - s" by (metis mod_add_self2 mod_less)
  then show ?thesis using False by simp
qed

lemma length_sub_with_borrow:
  "length xs = length ys \<Longrightarrow> length (fst (sub_with_borrow c xs ys)) = length xs"
  by (induction c xs ys rule: sub_with_borrow.induct) (auto simp: Let_def split: prod.splits)

lemma sub_with_borrow_val:
  "length xs = length ys \<Longrightarrow>
   seq_val (fst (sub_with_borrow c xs ys)) + seq_val ys + (if c then 1 else 0) =
   seq_val (xs :: 'a::len limbs) +
     (if snd (sub_with_borrow c xs ys) then 2 ^ (LENGTH('a) * length xs) else 0)"
proof (induction c xs ys rule: sub_with_borrow.induct)
  case (1 c x xs y ys)
  define B :: nat where "B = 2 ^ LENGTH('a)"
  define s where "s = unat y + (if c then 1 else 0)"
  define r where "r = sub_with_borrow (unat x < s) xs ys"
  define k :: nat where "k = (if unat x < s then 1 else 0)"
  define ov :: nat where "ov = (if snd r then 2 ^ (LENGTH('a) * length xs) else 0)"
  have len: "length xs = length ys" using "1.prems" by simp
  have IH: "seq_val (fst r) + seq_val ys + k = seq_val xs + ov"
    using "1.IH"[OF refl len] unfolding B_def s_def r_def k_def ov_def .
  have xb: "unat x < B" and yb: "unat y < B" unfolding B_def by (rule unsigned_less)+
  from yb have sb: "s \<le> B" unfolding s_def by (cases c) simp_all
  have tm: "(unat x + B - s) mod B + s = unat x + B * k"
    unfolding k_def by (rule borrow_split[OF sb xb])
  have unf: "sub_with_borrow c (x # xs) (y # ys) = (of_nat (unat x + B - s) # fst r, snd r)"
    by (simp add: Let_def s_def r_def B_def split: prod.splits)
  have "seq_val (fst (sub_with_borrow c (x # xs) (y # ys))) + seq_val (y # ys) + (if c then 1 else 0)
      = ((unat x + B - s) mod B + s) + B * (seq_val (fst r) + seq_val ys)"
    unfolding unf by (simp add: unat_of_nat_limb B_def s_def algebra_simps)
  also have "\<dots> = (unat x + B * k) + B * (seq_val (fst r) + seq_val ys)"
    by (simp only: tm)
  also have "\<dots> = unat x + B * (seq_val (fst r) + seq_val ys + k)"
    by (simp add: algebra_simps)
  also have "\<dots> = unat x + B * (seq_val xs + ov)" by (simp only: IH)
  also have "\<dots> = seq_val (x # xs) +
     (if snd (sub_with_borrow c (x # xs) (y # ys)) then 2 ^ (LENGTH('a) * length (x # xs)) else 0)"
    unfolding unf by (simp add: algebra_simps B_def ov_def power_add)
  finally show ?case .
qed simp_all

lemma lex_less:
  fixes a b u v B :: nat
  assumes "a < B" "b < B"
  shows "a + B * u < b + B * v \<longleftrightarrow> u < v \<or> (u = v \<and> a < b)"
proof -
  have "u < v \<Longrightarrow> a + B * u < b + B * v"
  proof -
    assume "u < v"
    then have "u + 1 \<le> v" by simp
    then have "B * (u + 1) \<le> B * v" by (rule mult_le_mono2)
    then show ?thesis using assms by (simp add: algebra_simps)
  qed
  moreover have "v < u \<Longrightarrow> b + B * v < a + B * u"
  proof -
    assume "v < u"
    then have "v + 1 \<le> u" by simp
    then have "B * (v + 1) \<le> B * u" by (rule mult_le_mono2)
    then show ?thesis using assms by (simp add: algebra_simps)
  qed
  ultimately show ?thesis
    by (cases u v rule: linorder_cases) auto
qed

lemma lex_eq:
  fixes a b u v B :: nat
  assumes "a < B" "b < B"
  shows "a + B * u = b + B * v \<longleftrightarrow> u = v \<and> a = b"
  using lex_less[OF assms, of u v] lex_less[OF assms(2) assms(1), of v u] by auto

lemma VtSeqCmp_val:
  "length xs = length ys \<Longrightarrow>
   (VtSeqCmp xs ys = Lt \<longleftrightarrow> seq_val xs < seq_val ys) \<and>
   (VtSeqCmp xs ys = Eq \<longleftrightarrow> seq_val xs = seq_val ys) \<and>
   (VtSeqCmp xs ys = Gt \<longleftrightarrow> seq_val ys < seq_val xs)"
proof (induction xs ys rule: VtSeqCmp.induct)
  case (1 x xs y ys)
  have len: "length xs = length ys" using "1.prems" by simp
  note IH = "1.IH"[OF len]
  have xb: "unat x < 2 ^ LENGTH('a)" and yb: "unat y < 2 ^ LENGTH('a)" by (rule unsigned_less)+
  note L1 = lex_less[OF xb yb, of "seq_val xs" "seq_val ys"]
  note L2 = lex_less[OF yb xb, of "seq_val ys" "seq_val xs"]
  note L3 = lex_eq[OF xb yb, of "seq_val xs" "seq_val ys"]
  show ?case
  proof (cases "VtSeqCmp xs ys")
    case Lt
    with IH have "seq_val xs < seq_val ys" by simp
    with Lt L1 L2 L3 show ?thesis by simp
  next
    case Eq
    with IH have e: "seq_val xs = seq_val ys" by simp
    show ?thesis using Eq e L1 L2 L3
      by (auto simp: word_less_nat_alt word_unat_eq_iff)
  next
    case Gt
    with IH have "seq_val ys < seq_val xs" by simp
    with Gt L1 L2 L3 show ?thesis by simp
  qed
qed simp_all

lemma seq_val_inj:
  "length xs = length ys \<Longrightarrow> seq_val xs = seq_val ys \<Longrightarrow> xs = (ys :: 'a::len limbs)"
proof (induction xs ys rule: list_induct2)
  case Nil
  then show ?case by simp
next
  case (Cons x xs y ys)
  have xb: "unat x < 2 ^ LENGTH('a)" and yb: "unat y < 2 ^ LENGTH('a)" by (rule unsigned_less)+
  from Cons.prems lex_eq[OF xb yb, of "seq_val xs" "seq_val ys"]
  have "seq_val xs = seq_val ys" "unat x = unat y" by simp_all
  with Cons.IH show ?case by (simp add: word_unat_eq_iff)
qed

lemma top_bit_limb:
  "bit (x :: 'a::len word) (LENGTH('a) - 1) \<longleftrightarrow> 2 ^ LENGTH('a) \<le> 2 * unat x"
proof -
  define h :: nat where "h = 2 ^ (LENGTH('a) - 1)"
  have B: "(2::nat) ^ LENGTH('a) = 2 * h"
    unfolding h_def by (metis len_gt_0 power_minus_mult mult.commute)
  have ub: "unat x < 2 * h" unfolding B[symmetric] by (rule unsigned_less)
  have hpos: "0 < h" by (simp add: h_def)
  have "bit x (LENGTH('a) - 1) \<longleftrightarrow> bit (unat x) (LENGTH('a) - 1)"
    by (simp add: bit_unsigned_iff)
  also have "\<dots> \<longleftrightarrow> odd (unat x div h)"
    by (simp add: bit_iff_odd h_def)
  also have "\<dots> \<longleftrightarrow> h \<le> unat x"
  proof (cases "h \<le> unat x")
    case True
    then have "unat x = (unat x - h) + h" "unat x - h < h" using ub by simp_all
    then have "unat x div h = 1"
      by (metis div_add_self2 div_less hpos add_0 less_numeral_extra(3))
    with True show ?thesis by simp
  next
    case False
    then show ?thesis by simp
  qed
  finally show ?thesis using B by simp
qed

lemma mask_test:
  "(x :: 'a::len word) AND push_bit (LENGTH('a) - 1) 1 \<noteq> 0 \<longleftrightarrow> bit x (LENGTH('a) - 1)"
  by (metis bit_iff_and_push_bit_not_eq_0)

lemma shift_limb:
  "unat (push_bit 1 (x :: 'a::len word) OR (if c then 1 else 0)) =
   (2 * unat x + (if c then 1 else 0)) mod 2 ^ LENGTH('a)"
proof -
  have p: "push_bit 1 x = x + x" by (simp add: push_bit_eq_mult)
  have e: "even (x + x)" by simp
  have "push_bit 1 x OR (if c then 1 else 0) = x + x + (if c then 1 else 0)"
    unfolding p using e by (simp add: or_one_eq)
  moreover have "unat (x + x + (if c then 1 else 0)) =
     (2 * unat x + (if c then 1 else 0)) mod 2 ^ LENGTH('a)"
  proof (cases c)
    case True
    have "unat (x + x + 1) = (unat (x + x) + unat (1 :: 'a word)) mod 2 ^ LENGTH('a)"
      by (rule unat_word_ariths(1))
    also have "\<dots> = ((unat x + unat x) mod 2 ^ LENGTH('a) + 1) mod 2 ^ LENGTH('a)"
      by (simp only: unat_word_ariths(1) unsigned_1)
    also have "\<dots> = (2 * unat x + 1) mod 2 ^ LENGTH('a)"
      by (simp only: mod_add_left_eq mult_2)
    finally show ?thesis using True by simp
  next
    case False
    have "unat (x + x) = (2 * unat x) mod 2 ^ LENGTH('a)"
      by (simp only: unat_word_ariths(1) mult_2)
    then show ?thesis using False by simp
  qed
  ultimately show ?thesis by simp
qed

lemma length_shift_left_1: "length (shift_left_1 c xs) = length xs"
  by (induction c xs rule: shift_left_1.induct) simp_all

lemma shift_left_1_val:
  "seq_val (shift_left_1 c (xs :: 'a::len limbs)) =
   (2 * seq_val xs + (if c then 1 else 0)) mod 2 ^ (LENGTH('a) * length xs)"
proof (induction c xs rule: shift_left_1.induct)
  case (1 c)
  then show ?case by simp
next
  case (2 c x xs)
  define B :: nat where "B = 2 ^ LENGTH('a)"
  define Nn :: nat where "Nn = 2 ^ (LENGTH('a) * length xs)"
  define t where "t = 2 * unat x + (if c then 1 else 0)"
  define k :: nat where "k = (if bit x (LENGTH('a) - 1) then 1 else 0)"
  have Bpos: "0 < B" by (simp add: B_def)
  have Beven: "even B" by (simp add: B_def)
  have xb: "unat x < B" unfolding B_def by (rule unsigned_less)
  have kdiv: "t div B = k"
  proof (cases "bit x (LENGTH('a) - 1)")
    case True
    then have "B \<le> 2 * unat x" using top_bit_limb[of x] by (simp add: B_def)
    then have "t = (t - B) + B" "t - B < B" using xb by (auto simp: t_def)
    then have "t div B = 1"
      by (metis div_add_self2 div_less Bpos add_0 less_numeral_extra(3))
    with True show ?thesis by (simp add: k_def)
  next
    case False
    then have "2 * unat x < B" using top_bit_limb[of x] by (simp add: B_def)
    moreover have "2 * unat x + 1 \<noteq> B" using Beven by presburger
    ultimately have "t < B" by (auto simp: t_def)
    with False show ?thesis by (simp add: k_def)
  qed
  have IH: "seq_val (shift_left_1 (bit x (LENGTH('a) - 1)) xs) = (2 * seq_val xs + k) mod Nn"
    using "2.IH" unfolding k_def Nn_def .
  have "seq_val (shift_left_1 c (x # xs)) =
        unat (push_bit 1 x OR (if c then 1 else 0)) +
        B * seq_val (shift_left_1 (bit x (LENGTH('a) - 1)) xs)"
    by (simp only: shift_left_1.simps seq_val.simps B_def)
  also have "\<dots> = t mod B + B * ((2 * seq_val xs + k) mod Nn)"
    by (simp only: shift_limb IH t_def B_def)
  also have "\<dots> = (t + B * (2 * seq_val xs)) mod (B * Nn)"
  proof -
    have "(t + B * (2 * seq_val xs)) mod (B * Nn) =
          B * ((t + B * (2 * seq_val xs)) div B mod Nn) + (t + B * (2 * seq_val xs)) mod B"
      by (rule mod_mult2_eq)
    moreover have "(t + B * (2 * seq_val xs)) div B = k + 2 * seq_val xs"
      using Bpos kdiv by simp
    moreover have "(t + B * (2 * seq_val xs)) mod B = t mod B" by simp
    ultimately show ?thesis by (simp add: add.commute)
  qed
  also have "\<dots> = (2 * seq_val (x # xs) + (if c then 1 else 0)) mod 2 ^ (LENGTH('a) * length (x # xs))"
    by (simp add: t_def B_def Nn_def power_add algebra_simps)
  finally show ?case .
qed

lemma length_seq_shift_left: "length (seq_shift_left K xs) = length xs"
  unfolding seq_shift_left_def by (induction K) (simp_all add: length_shift_left_1)

lemma seq_shift_left_val:
  "seq_val (seq_shift_left K (xs :: 'a::len limbs)) =
   (2 ^ K * seq_val xs) mod 2 ^ (LENGTH('a) * length xs)"
proof (induction K)
  case 0
  then show ?case using seq_val_bound[of xs] by (simp add: seq_shift_left_def)
next
  case (Suc K)
  have l: "length ((shift_left_1 False ^^ K) xs) = length xs"
    using length_seq_shift_left[of K xs] by (simp add: seq_shift_left_def)
  have "seq_val (seq_shift_left (Suc K) xs) =
        (2 * seq_val (seq_shift_left K xs)) mod 2 ^ (LENGTH('a) * length xs)"
    by (simp add: seq_shift_left_def shift_left_1_val l)
  also have "\<dots> = (2 * (2 ^ K * seq_val xs)) mod 2 ^ (LENGTH('a) * length xs)"
    unfolding Suc.IH by (simp add: mod_mult_right_eq)
  finally show ?case by (simp add: mult.assoc)
qed

lemma top_bit_seq:
  "xs \<noteq> [] \<Longrightarrow>
   bit (last (xs :: 'a::len limbs)) (LENGTH('a) - 1) \<longleftrightarrow>
   2 ^ (LENGTH('a) * length xs) \<le> 2 * seq_val xs"
proof (induction xs)
  case Nil
  then show ?case by simp
next
  case (Cons x xs)
  show ?case
  proof (cases "xs = []")
    case True
    then show ?thesis using top_bit_limb[of x] by simp
  next
    case False
    define B :: nat where "B = 2 ^ LENGTH('a)"
    define Nn :: nat where "Nn = 2 ^ (LENGTH('a) * length xs)"
    have xb: "unat x < B" unfolding B_def by (rule unsigned_less)
    have Beven: "even B" by (simp add: B_def)
    have Neven: "even Nn" using False by (simp add: Nn_def)
    have IH: "bit (last xs) (LENGTH('a) - 1) \<longleftrightarrow> Nn \<le> 2 * seq_val xs"
      using Cons.IH[OF False] by (simp add: Nn_def)
    have "B * Nn \<le> 2 * (unat x + B * seq_val xs) \<longleftrightarrow> Nn \<le> 2 * seq_val xs"
    proof
      assume a: "Nn \<le> 2 * seq_val xs"
      then have "B * Nn \<le> B * (2 * seq_val xs)" by (rule mult_le_mono2)
      moreover have "B * (2 * seq_val xs) \<le> 2 * (unat x + B * seq_val xs)" by simp
      ultimately show "B * Nn \<le> 2 * (unat x + B * seq_val xs)" by (rule order_trans)
    next
      assume a: "B * Nn \<le> 2 * (unat x + B * seq_val xs)"
      show "Nn \<le> 2 * seq_val xs"
      proof (rule ccontr)
        assume "\<not> Nn \<le> 2 * seq_val xs"
        then have "2 * seq_val xs < Nn" by simp
        with Neven have "2 * seq_val xs + 2 \<le> Nn" by presburger
        then have "B * (2 * seq_val xs + 2) \<le> B * Nn" by (rule mult_le_mono2)
        then have "2 * (B * seq_val xs) + 2 * B \<le> B * Nn" by (simp add: algebra_simps)
        with a xb show False by (simp add: algebra_simps)
      qed
    qed
    then show ?thesis using False IH by (simp add: B_def Nn_def power_add)
  qed
qed

lemma cond_sub:
  fixes a MOD :: "'a::len limbs"
  assumes len: "length a = length MOD"
    and T: "T = seq_val a + (if carry then 2 ^ (LENGTH('a) * length MOD) else 0)"
    and TM: "T < 2 * seq_val MOD"
  defines "r \<equiv> (if carry \<or> VtSeqCmp a MOD \<noteq> Lt then fst (seq_sub a MOD) else a)"
  shows "seq_val r = T mod seq_val MOD"
    and "length r = length MOD"
    and "(carry \<or> VtSeqCmp a MOD \<noteq> Lt) \<longleftrightarrow> seq_val MOD \<le> T"
proof -
  define P :: nat where "P = 2 ^ (LENGTH('a) * length MOD)"
  define M where "M = seq_val MOD"
  define d where "d = fst (seq_sub a MOD)"
  define bw :: nat where "bw = (if snd (seq_sub a MOD) then P else 0)"
  have MP: "M < P" unfolding M_def P_def by (rule seq_val_bound)
  have aP: "seq_val a < P" unfolding P_def len[symmetric] by (rule seq_val_bound)
  have dP: "seq_val d < P"
    using seq_val_bound[of d] length_sub_with_borrow[OF len, of False]
    by (simp add: d_def seq_sub_def P_def len)
  have sub: "seq_val d + M = seq_val a + bw"
    using sub_with_borrow_val[OF len, of False]
    by (simp add: d_def bw_def seq_sub_def M_def P_def len)
  have cmp: "VtSeqCmp a MOD \<noteq> Lt \<longleftrightarrow> M \<le> seq_val a"
    using VtSeqCmp_val[OF len] by (auto simp: M_def)
  have T': "T = seq_val a + (if carry then P else 0)" using T by (simp add: P_def)
  have TM': "T < 2 * M" using TM by (simp add: M_def)
  show c3: "(carry \<or> VtSeqCmp a MOD \<noteq> Lt) \<longleftrightarrow> seq_val MOD \<le> T"
    using cmp T' TM' MP aP by (auto simp: M_def)
  show "length r = length MOD"
    using length_sub_with_borrow[OF len, of False] len by (simp add: r_def seq_sub_def)
  show "seq_val r = T mod seq_val MOD"
  proof (cases "carry \<or> VtSeqCmp a MOD \<noteq> Lt")
    case False
    then have "T < M" using c3 by (simp add: M_def)
    moreover have "T = seq_val a" using False T' by simp
    ultimately show ?thesis using False by (simp add: r_def M_def)
  next
    case True
    then have MT: "M \<le> T" using c3 by (simp add: M_def)
    have "seq_val d + M = T"
    proof (cases carry)
      case True
      then have "seq_val a + P < 2 * M" using T' TM' by simp
      then have "seq_val a < M" using MP by simp
      then have "bw = P" using sub by (auto simp: bw_def split: if_splits)
      then show ?thesis using sub T' True by simp
    next
      case False
      then have "M \<le> seq_val a" using MT T' by simp
      then have "bw = 0" using sub dP by (auto simp: bw_def split: if_splits)
      then show ?thesis using sub T' False by simp
    qed
    then have "T = seq_val d + M" "seq_val d < M" using TM' by simp_all
    then have "T mod M = seq_val d" by (metis mod_add_self2 mod_less)
    then show ?thesis using True by (simp add: r_def d_def M_def)
  qed
qed

lemma ModAddSub_add_unfold:
  "ModAddSub_add MOD b c =
   (if snd (seq_add b c) \<or> VtSeqCmp (fst (seq_add b c)) MOD \<noteq> Lt
    then fst (seq_sub (fst (seq_add b c)) MOD) else fst (seq_add b c))"
  by (simp add: ModAddSub_add_def split: prod.splits)

lemma ModAddSub_add_val:
  fixes MOD :: "'a::len limbs"
  assumes lb: "length b = length MOD" and lc: "length c = length MOD"
    and vb: "seq_val b < seq_val MOD" and vc: "seq_val c < seq_val MOD"
  shows "seq_val (ModAddSub_add MOD b c) = (seq_val b + seq_val c) mod seq_val MOD"
    and "length (ModAddSub_add MOD b c) = length MOD"
    and "(snd (seq_add b c) \<or> VtSeqCmp (fst (seq_add b c)) MOD \<noteq> Lt) \<longleftrightarrow>
         seq_val MOD \<le> seq_val b + seq_val c"
proof -
  have lbc: "length b = length c" using lb lc by simp
  define s where "s = fst (seq_add b c)"
  define carry where "carry = snd (seq_add b c)"
  have ls: "length s = length MOD"
    using length_add_with_carry[OF lbc, of False] lb by (simp add: s_def seq_add_def)
  have "seq_val s + (if carry then 2 ^ (LENGTH('a) * length b) else 0) =
        seq_val b + seq_val c + (if False then 1 else 0)"
    unfolding s_def carry_def seq_add_def by (rule add_with_carry_val[OF lbc])
  then have T: "seq_val b + seq_val c =
           seq_val s + (if carry then 2 ^ (LENGTH('a) * length MOD) else 0)"
    by (simp only: lb if_False add_0_right)
  have TM: "seq_val b + seq_val c < 2 * seq_val MOD" using vb vc by simp
  note cs = cond_sub[OF ls T TM]
  show "seq_val (ModAddSub_add MOD b c) = (seq_val b + seq_val c) mod seq_val MOD"
    unfolding ModAddSub_add_unfold using cs(1) by (simp only: s_def carry_def)
  show "length (ModAddSub_add MOD b c) = length MOD"
    unfolding ModAddSub_add_unfold using cs(2) by (simp only: s_def carry_def)
  show "(snd (seq_add b c) \<or> VtSeqCmp (fst (seq_add b c)) MOD \<noteq> Lt) \<longleftrightarrow>
         seq_val MOD \<le> seq_val b + seq_val c"
    using cs(3) by (simp only: s_def carry_def)
qed

lemma MulPow2Helper_step:
  fixes MOD :: "'a::len limbs"
  assumes la: "length a = length MOD" and va: "seq_val a < seq_val MOD"
  defines "carry \<equiv> (a ! (length MOD - 1) AND push_bit (LENGTH('a) - 1) 1 \<noteq> 0)"
  defines "a1 \<equiv> seq_shift_left 1 a"
  defines "a2 \<equiv> (if carry \<or> VtSeqCmp a1 MOD \<noteq> Lt then fst (seq_sub a1 MOD) else a1)"
  shows "seq_val a2 = (2 * seq_val a) mod seq_val MOD" and "length a2 = length MOD"
proof -
  define P :: nat where "P = 2 ^ (LENGTH('a) * length MOD)"
  have ne: "a \<noteq> []" using va la by (cases MOD) auto
  have aP: "seq_val a < P" unfolding P_def la[symmetric] by (rule seq_val_bound)
  have "a ! (length MOD - 1) = last a" using ne la by (simp add: last_conv_nth)
  then have "carry \<longleftrightarrow> bit (last a) (LENGTH('a) - 1)"
    unfolding carry_def by (simp only: mask_test)
  then have carry: "carry \<longleftrightarrow> P \<le> 2 * seq_val a"
    using top_bit_seq[OF ne] by (simp only: la P_def)
  have l1: "length a1 = length MOD" by (simp add: a1_def length_seq_shift_left la)
  have v1: "seq_val a1 = (2 * seq_val a) mod P"
    using seq_shift_left_val[of 1 a] by (simp add: a1_def P_def la)
  have T: "2 * seq_val a = seq_val a1 + (if carry then 2 ^ (LENGTH('a) * length MOD) else 0)"
  proof (cases carry)
    case True
    then have "2 * seq_val a = (2 * seq_val a - P) + P" "2 * seq_val a - P < P"
      using carry aP by simp_all
    then have "(2 * seq_val a) mod P = 2 * seq_val a - P" by (metis mod_add_self2 mod_less)
    then show ?thesis using True carry v1 by (simp add: P_def)
  next
    case False
    then show ?thesis using carry v1 by simp
  qed
  have TM: "2 * seq_val a < 2 * seq_val MOD" using va by simp
  note cs = cond_sub[OF l1 T TM]
  show "seq_val a2 = (2 * seq_val a) mod seq_val MOD" unfolding a2_def by (rule cs(1))
  show "length a2 = length MOD" unfolding a2_def by (rule cs(2))
qed

lemma MulPow2Helper_val:
  fixes MOD :: "'a::len limbs"
  shows "length a = length MOD \<Longrightarrow> seq_val a < seq_val MOD \<Longrightarrow>
    seq_val (MulPow2Helper MOD K a) = (2 ^ K * seq_val a) mod seq_val MOD \<and>
    length (MulPow2Helper MOD K a) = length MOD"
proof (induction K arbitrary: a)
  case 0
  then show ?case by simp
next
  case (Suc K)
  define a2 where "a2 =
     (if (a ! (length MOD - 1) AND push_bit (LENGTH('a) - 1) 1 \<noteq> 0) \<or>
          VtSeqCmp (seq_shift_left 1 a) MOD \<noteq> Lt
      then fst (seq_sub (seq_shift_left 1 a) MOD) else seq_shift_left 1 a)"
  have st: "seq_val a2 = (2 * seq_val a) mod seq_val MOD" "length a2 = length MOD"
    unfolding a2_def by (rule MulPow2Helper_step[OF Suc.prems])+
  have Mpos: "0 < seq_val MOD" using Suc.prems(2) by simp
  then have lt: "seq_val a2 < seq_val MOD" using st(1) by simp
  have unf: "MulPow2Helper MOD (Suc K) a = MulPow2Helper MOD K a2"
    unfolding a2_def by (simp only: MulPow2Helper.simps Let_def)
  have "seq_val (MulPow2Helper MOD K a2) = (2 ^ K * ((2 * seq_val a) mod seq_val MOD)) mod seq_val MOD"
    using Suc.IH[OF st(2) lt] st(1) by simp
  also have "\<dots> = (2 ^ K * (2 * seq_val a)) mod seq_val MOD" by (rule mod_mult_right_eq)
  also have "\<dots> = (2 ^ Suc K * seq_val a) mod seq_val MOD" by (simp add: ac_simps)
  finally show ?case using Suc.IH[OF st(2) lt] unfolding unf by simp
qed

section \<open>Claims about the add-group\<close>

text \<open>
  Claim C6. For operands \<open>a\<close>, \<open>b\<close> in \<open>[0, M)\<close> (arrays of \<open>LIMB_N\<close> limbs),
  \<open>ModAddSub::add\<close> is one ripple-carry addition followed by a subtraction of the
  modulus exactly when the addition carried out of the top limb or the stored sum is not
  below the modulus; the result denotes \<open>(a + b) mod M\<close> and so lies in \<open>[0, M)\<close>.
  In particular \<open>add(0, 0) = 0\<close> and \<open>add(M - 1, 1) = 0\<close>.
\<close>

theorem ModAddSub_add_correct:
  fixes MOD :: "'a::len limbs"
  assumes "length a = length MOD" and "length b = length MOD"
    and "seq_val a < seq_val MOD" and "seq_val b < seq_val MOD"
  shows "ModAddSub_add MOD a b =
           (if snd (seq_add a b) \<or> seq_val MOD \<le> seq_val (fst (seq_add a b))
            then fst (seq_sub (fst (seq_add a b)) MOD) else fst (seq_add a b)) \<and>
         seq_val (ModAddSub_add MOD a b) = (seq_val a + seq_val b) mod seq_val MOD \<and>
         seq_val (ModAddSub_add MOD a b) < seq_val MOD \<and>
         length (ModAddSub_add MOD a b) = length MOD \<and>
         (seq_val a = 0 \<and> seq_val b = 0 \<longrightarrow> seq_val (ModAddSub_add MOD a b) = 0) \<and>
         (seq_val a = seq_val MOD - 1 \<and> seq_val b = 1 \<longrightarrow>
            seq_val (ModAddSub_add MOD a b) = 0)"
proof -
  have lab: "length a = length b" using assms by simp
  have ls: "length (fst (seq_add a b)) = length MOD"
    using length_add_with_carry[OF lab, of False] assms(1) by (simp add: seq_add_def)
  have cmp: "VtSeqCmp (fst (seq_add a b)) MOD \<noteq> Lt \<longleftrightarrow>
             seq_val MOD \<le> seq_val (fst (seq_add a b))"
    using VtSeqCmp_val[OF ls] by auto
  have v: "seq_val (ModAddSub_add MOD a b) = (seq_val a + seq_val b) mod seq_val MOD"
    by (rule ModAddSub_add_val(1)[OF assms])
  have Mpos: "0 < seq_val MOD" using assms(3) by simp
  have c1: "ModAddSub_add MOD a b =
           (if snd (seq_add a b) \<or> seq_val MOD \<le> seq_val (fst (seq_add a b))
            then fst (seq_sub (fst (seq_add a b)) MOD) else fst (seq_add a b))"
    unfolding ModAddSub_add_unfold cmp ..
  have c3: "seq_val (ModAddSub_add MOD a b) < seq_val MOD" using v Mpos by simp
  have c4: "length (ModAddSub_add MOD a b) = length MOD"
    by (rule ModAddSub_add_val(2)[OF assms])
  have c5: "seq_val a = 0 \<and> seq_val b = 0 \<longrightarrow> seq_val (ModAddSub_add MOD a b) = 0"
    using v by simp
  have c6: "seq_val a = seq_val MOD - 1 \<and> seq_val b = 1 \<longrightarrow>
            seq_val (ModAddSub_add MOD a b) = 0"
    using v Mpos by simp
  from c1 v c3 c4 c5 c6 show ?thesis by blast
qed

text \<open>
  The hypotheses of C6 hold for the two-limb modulus \<open>267\<close> over 8-bit limbs, where
  \<open>add(M - 1, 1)\<close> is the zero array.
\<close>

theorem ModAddSub_add_correct_witness:
  "length [10, 1 :: 8 word] = length [11, 1 :: 8 word] \<and>
   seq_val [10, 1 :: 8 word] < seq_val [11, 1 :: 8 word] \<and>
   seq_val [1, 0 :: 8 word] < seq_val [11, 1 :: 8 word] \<and>
   seq_val [10, 1 :: 8 word] = seq_val [11, 1 :: 8 word] - 1 \<and>
   seq_val [1, 0 :: 8 word] = 1 \<and>
   ModAddSub_add [11, 1] [10, 1] [1, 0 :: 8 word] = [0, 0] \<and>
   seq_val (ModAddSub_add [11, 1] [10, 1] [1, 0 :: 8 word]) = 0"
proof -
  have h1: "length [10, 1 :: 8 word] = length [11, 1 :: 8 word]" by simp
  have h2: "length [1, 0 :: 8 word] = length [11, 1 :: 8 word]" by simp
  have h3: "seq_val [10, 1 :: 8 word] < seq_val [11, 1 :: 8 word]" by simp
  have h4: "seq_val [1, 0 :: 8 word] < seq_val [11, 1 :: 8 word]" by simp
  have h5: "seq_val [10, 1 :: 8 word] = seq_val [11, 1 :: 8 word] - 1 \<and>
            seq_val [1, 0 :: 8 word] = 1" by simp
  have e: "ModAddSub_add [11, 1] [10, 1] [1, 0 :: 8 word] = [0, 0]" by code_simp
  from ModAddSub_add_correct[OF h1 h2 h3 h4] h5
  have "seq_val (ModAddSub_add [11, 1] [10, 1] [1, 0 :: 8 word]) = 0" by blast
  with h1 h3 h4 h5 e show ?thesis by blast
qed

text \<open>
  Claim C7. For \<open>a\<close> in \<open>[0, M)\<close> and every \<open>k\<close>, the carry-checked variant
  satisfies \<open>add_self(a) = mul_pow2<1>(a) = add(a, a)\<close> as limb arrays, and
  \<open>mul_pow2<k>(a)\<close> denotes \<open>2^k * a mod M\<close>.
\<close>

theorem ModAddSub_mul_pow2_correct:
  fixes MOD :: "'a::len limbs"
  assumes "length a = length MOD" and "seq_val a < seq_val MOD"
  shows "ModAddSub_add_self MOD a = ModAddSub_mul_pow2 MOD 1 a \<and>
         ModAddSub_mul_pow2 MOD 1 a = ModAddSub_add MOD a a \<and>
         seq_val (ModAddSub_mul_pow2 MOD k a) = (2 ^ k * seq_val a) mod seq_val MOD \<and>
         length (ModAddSub_mul_pow2 MOD k a) = length MOD"
proof -
  have c1: "ModAddSub_add_self MOD a = ModAddSub_mul_pow2 MOD 1 a"
    by (simp only: ModAddSub_add_self_def ModAddSub_mul_pow2_def)
  have m: "seq_val (ModAddSub_mul_pow2 MOD j a) = (2 ^ j * seq_val a) mod seq_val MOD \<and>
         length (ModAddSub_mul_pow2 MOD j a) = length MOD" for j
    unfolding ModAddSub_mul_pow2_def by (rule MulPow2Helper_val[OF assms])
  have "seq_val (ModAddSub_mul_pow2 MOD 1 a) = seq_val (ModAddSub_add MOD a a)"
    using m[of 1] ModAddSub_add_val(1)[OF assms(1) assms(1) assms(2) assms(2)]
    by (simp add: mult_2)
  moreover have "length (ModAddSub_mul_pow2 MOD 1 a) = length (ModAddSub_add MOD a a)"
    using m[of 1] ModAddSub_add_val(2)[OF assms(1) assms(1) assms(2) assms(2)] by simp
  ultimately have c2: "ModAddSub_mul_pow2 MOD 1 a = ModAddSub_add MOD a a"
    by (rule seq_val_inj[rotated])
  from c1 c2 m[of k] show ?thesis by blast
qed

text \<open>
  The hypotheses of C7 hold for \<open>a = 200\<close> modulo \<open>267\<close>:
  \<open>mul_pow2<3>\<close> yields \<open>1600 mod 267 = 265\<close>.
\<close>

theorem ModAddSub_mul_pow2_correct_witness:
  "length [200, 0 :: 8 word] = length [11, 1 :: 8 word] \<and>
   seq_val [200, 0 :: 8 word] < seq_val [11, 1 :: 8 word] \<and>
   ModAddSub_mul_pow2 [11, 1] 3 [200, 0 :: 8 word] = [9, 1] \<and>
   seq_val (ModAddSub_mul_pow2 [11, 1] 3 [200, 0 :: 8 word]) =
     (2 ^ 3 * seq_val [200, 0 :: 8 word]) mod seq_val [11, 1 :: 8 word] \<and>
   ModAddSub_add_self [11, 1] [200, 0 :: 8 word] = ModAddSub_add [11, 1] [200, 0] [200, 0]"
proof -
  have h1: "length [200, 0 :: 8 word] = length [11, 1 :: 8 word]" by simp
  have h2: "seq_val [200, 0 :: 8 word] < seq_val [11, 1 :: 8 word]" by simp
  have e: "ModAddSub_mul_pow2 [11, 1] 3 [200, 0 :: 8 word] = [9, 1]" by code_simp
  from ModAddSub_mul_pow2_correct[OF h1 h2, of 3] h1 h2 e show ?thesis by simp
qed

text \<open>
  For \<open>K = 1\<close> the carry-free helper is right when the modulus leaves the top bit
  free: the shift cannot overflow and one subtraction reduces the result.
\<close>

lemma CarryFree_mul_pow2_one:
  fixes MOD :: "'a::len limbs"
  assumes la: "length a = length MOD" and va: "seq_val a < seq_val MOD"
    and spare: "2 * seq_val MOD \<le> 2 ^ (LENGTH('a) * length MOD)"
  shows "seq_val (ModAddSubMixinCarryFree_mul_pow2 MOD 1 a) = (2 * seq_val a) mod seq_val MOD"
proof -
  define a1 where "a1 = seq_shift_left 1 a"
  have l1: "length a1 = length MOD" by (simp add: a1_def length_seq_shift_left la)
  have "2 * seq_val a < 2 ^ (LENGTH('a) * length MOD)" using va spare by simp
  then have v1: "seq_val a1 = 2 * seq_val a"
    using seq_shift_left_val[of 1 a] by (simp add: a1_def la)
  have T: "2 * seq_val a = seq_val a1 + (if False then 2 ^ (LENGTH('a) * length MOD) else 0)"
    using v1 by simp
  have TM: "2 * seq_val a < 2 * seq_val MOD" using va by simp
  have "seq_val (if False \<or> VtSeqCmp a1 MOD \<noteq> Lt then fst (seq_sub a1 MOD) else a1) =
        (2 * seq_val a) mod seq_val MOD"
    by (rule cond_sub(1)[OF l1 T TM])
  moreover have "CarryFreeMulPow2Helper MOD (Suc 0) a =
      (if VtSeqCmp a1 MOD \<noteq> Lt then fst (seq_sub a1 MOD) else a1)"
    by (simp add: a1_def Let_def)
  ultimately show ?thesis
    by (simp add: ModAddSubMixinCarryFree_mul_pow2_def)
qed

text \<open>
  Claim C2. The carry-free \<open>mul_pow2<K>\<close> is documented as \<open>a = a * 2^K (mod MOD)\<close>.
  Its helper shifts by \<open>K\<close> bits, subtracts the modulus at most once, and then calls
  itself for \<open>K - 1\<close>, so that for \<open>K = 2\<close> the argument is shifted by three bits in
  all. With one 8-bit limb, \<open>M = 5 < 2^7\<close> and \<open>a = 1\<close> the carry-free variant
  returns \<open>3\<close>, while \<open>2^2 * 1 mod 5 = 4\<close> is what the carry-checked variant
  returns.
\<close>

theorem CarryFree_mul_pow2_diverges:
  "seq_val [5 :: 8 word] < 2 ^ (1 * 8 - 1) \<and>
   seq_val [1 :: 8 word] < seq_val [5 :: 8 word] \<and>
   ModAddSubMixinCarryFree_mul_pow2 [5] 2 [1 :: 8 word] = [3] \<and>
   ModAddSub_mul_pow2 [5] 2 [1 :: 8 word] = [4] \<and>
   (2 ^ 2 * seq_val [1 :: 8 word]) mod seq_val [5 :: 8 word] = 4 \<and>
   seq_val (ModAddSubMixinCarryFree_mul_pow2 [5] 2 [1 :: 8 word]) \<noteq>
     (2 ^ 2 * seq_val [1 :: 8 word]) mod seq_val [5 :: 8 word]"
  by code_simp

section \<open>Claims about Jacobian points\<close>

lemma sub_with_borrow_self:
  "sub_with_borrow False a a = (replicate (length a) 0, False)"
proof (induction a)
  case Nil
  then show ?case by simp
next
  case (Cons x xs)
  have "(of_nat (unat x + 2 ^ LENGTH('a) - unat x) :: 'a::len word) = 0"
    by simp
  then show ?case using Cons by (simp add: Let_def)
qed

lemma is_zero_replicate: "is_zero (replicate n 0)"
  by (simp add: is_zero_def list_all_iff)

lemma ModAddSub_sub_self: "is_zero (ModAddSub_sub MOD a a)"
  by (simp add: ModAddSub_sub_def seq_sub_def sub_with_borrow_self is_zero_replicate)

lemma is_zero_val: "is_zero a \<Longrightarrow> seq_val a = 0"
  by (induction a) (simp_all add: is_zero_def)

lemma nat_to_seq_zero: "is_zero (nat_to_seq n 0)"
  by (induction n) (simp_all add: is_zero_def)

lemma Montgomery_mul_zero: "is_zero e \<Longrightarrow> is_zero (Montgomery_mul MOD a e)"
  by (simp add: Montgomery_mul_def is_zero_val nat_to_seq_zero)

text \<open>
  Claim C1. \<open>neg(a, b)\<close> is specified to negate the y-coordinate only, leaving
  \<open>a.x = b.x\<close>. The first statement of \<open>Jacobain::neg\<close> assigns \<open>b.y()\<close> to
  \<open>a.x()\<close>. Over the field modulo 7 (one 8-bit limb) the point \<open>(3, 5, 4)\<close> is sent
  to \<open>(5, 2, 4)\<close>: the x-coordinate of the result is the y-coordinate of the argument.
\<close>

theorem Jacobain_neg_copies_y:
  "Jacobain_neg (PrimeField [7 :: 8 word]) \<lparr>pt_x = [3], pt_y = [5], pt_z = [4]\<rparr> =
     \<lparr>pt_x = [5], pt_y = [2], pt_z = [4]\<rparr> \<and>
   pt_x (Jacobain_neg (PrimeField [7 :: 8 word]) \<lparr>pt_x = [3], pt_y = [5], pt_z = [4]\<rparr>) \<noteq>
     pt_x \<lparr>pt_x = [3 :: 8 word], pt_y = [5 :: 8 word], pt_z = [4 :: 8 word]\<rparr>"
  by code_simp

text \<open>
  Claim C3, as stated, fails: \<open>to_affine\<close> inverts \<open>z\<close> in place, so the
  z-coordinate does not keep its value. Over the field modulo 7 the point \<open>(3, 5, 1)\<close>
  is neither at infinity nor has \<open>z\<close> equal to the multiplicative identity (which is
  \<open>R mod 7 = 4\<close>), and its z-coordinate becomes \<open>2\<close>.
\<close>

theorem to_affine_changes_z:
  "\<not> is_inf (PrimeField [7 :: 8 word]) \<lparr>pt_x = [3], pt_y = [5], pt_z = [1]\<rparr> \<and>
   \<not> F_is_mul_id (PrimeField [7 :: 8 word]) (pt_z \<lparr>pt_x = [3 :: 8 word], pt_y = [5 :: 8 word], pt_z = [1]\<rparr>) \<and>
   pt_z (to_affine (PrimeField [7 :: 8 word]) \<lparr>pt_x = [3], pt_y = [5], pt_z = [1]\<rparr>) \<noteq>
     pt_z \<lparr>pt_x = [3 :: 8 word], pt_y = [5 :: 8 word], pt_z = [1 :: 8 word]\<rparr>"
  by code_simp

text \<open>
  Claim C3, amended. \<open>to_affine\<close> returns its argument unchanged when it is the point
  at infinity or when \<open>z\<close> is the multiplicative identity; otherwise, with
  \<open>zi = inv(z)\<close>, it sets \<open>x\<close> to \<open>x * zi^2\<close>, \<open>y\<close> to \<open>y * zi^3\<close> and
  \<open>z\<close> to \<open>zi\<close>. \<open>from_affine\<close> sets \<open>z\<close> to the multiplicative identity and
  keeps \<open>x\<close> and \<open>y\<close>.
\<close>

theorem to_affine_from_affine:
  "(is_inf F p \<or> F_is_mul_id F (pt_z p) \<longrightarrow> to_affine F p = p) \<and>
   (\<not> is_inf F p \<and> \<not> F_is_mul_id F (pt_z p) \<longrightarrow>
      pt_x (to_affine F p) = F_mul F (pt_x p) (F_mul F (F_inv F (pt_z p)) (F_inv F (pt_z p))) \<and>
      pt_y (to_affine F p) =
        F_mul F (pt_y p)
          (F_mul F (F_mul F (F_inv F (pt_z p)) (F_inv F (pt_z p))) (F_inv F (pt_z p))) \<and>
      pt_z (to_affine F p) = F_inv F (pt_z p)) \<and>
   pt_x (from_affine F p) = pt_x p \<and> pt_y (from_affine F p) = pt_y p \<and>
   pt_z (from_affine F p) = F_set_mul_id F"
  by (simp add: to_affine_def from_affine_def Let_def)

text \<open>
  Both branches of the amended C3 occur over the field modulo 7.
\<close>

theorem to_affine_from_affine_witness:
  "\<not> is_inf (PrimeField [7 :: 8 word]) \<lparr>pt_x = [3], pt_y = [5], pt_z = [1]\<rparr> \<and>
   \<not> F_is_mul_id (PrimeField [7 :: 8 word]) [1] \<and>
   F_inv (PrimeField [7 :: 8 word]) [1] = [2] \<and>
   to_affine (PrimeField [7 :: 8 word]) \<lparr>pt_x = [3], pt_y = [5], pt_z = [1]\<rparr> =
     \<lparr>pt_x = [6], pt_y = [5], pt_z = [2]\<rparr> \<and>
   pt_z (to_affine (PrimeField [7 :: 8 word]) \<lparr>pt_x = [3], pt_y = [5], pt_z = [1]\<rparr>) =
     F_inv (PrimeField [7 :: 8 word]) [1] \<and>
   is_inf (PrimeField [7 :: 8 word]) \<lparr>pt_x = [3], pt_y = [5], pt_z = [0]\<rparr> \<and>
   to_affine (PrimeField [7 :: 8 word]) \<lparr>pt_x = [3], pt_y = [5], pt_z = [0]\<rparr> =
     \<lparr>pt_x = [3], pt_y = [5], pt_z = [0]\<rparr> \<and>
   pt_z (from_affine (PrimeField [7 :: 8 word]) \<lparr>pt_x = [6], pt_y = [5], pt_z = [2]\<rparr>) = [4]"
proof -
  let ?F = "PrimeField [7 :: 8 word]"
  let ?p = "\<lparr>pt_x = [3 :: 8 word], pt_y = [5 :: 8 word], pt_z = [1 :: 8 word]\<rparr>"
  let ?q = "\<lparr>pt_x = [3 :: 8 word], pt_y = [5 :: 8 word], pt_z = [0 :: 8 word]\<rparr>"
  have h1: "\<not> is_inf ?F ?p" by code_simp
  have h2: "\<not> F_is_mul_id ?F [1]" by code_simp
  have h3: "is_inf ?F ?q" by code_simp
  have e1: "F_inv ?F [1] = [2]" by code_simp
  have e2: "to_affine ?F ?p = \<lparr>pt_x = [6], pt_y = [5], pt_z = [2]\<rparr>" by code_simp
  have e3: "pt_z (from_affine ?F \<lparr>pt_x = [6], pt_y = [5], pt_z = [2]\<rparr>) = [4]" by code_simp
  from to_affine_from_affine[of ?F ?p] h1 h2
  have a: "pt_z (to_affine ?F ?p) = F_inv ?F [1]" by simp
  from to_affine_from_affine[of ?F ?q] h3
  have b: "to_affine ?F ?q = ?q" by simp
  from h1 h2 h3 e1 e2 e3 a b show ?thesis by simp
qed

text \<open>
  Claim C4. The generic \<open>add(out, p, q, ctx)\<close>: if \<open>p\<close> is at infinity the result is
  \<open>q\<close>; if \<open>q\<close> is at infinity the result is \<open>p\<close>; otherwise, with
  \<open>A = x1 z2^2\<close>, \<open>B = x2 z1^2\<close>, \<open>C = y1 z2^3\<close>, \<open>D = y2 z1^3\<close> as the source
  computes them, \<open>A = B\<close> and \<open>C = D\<close> give the doubling of \<open>p\<close>, \<open>A = B\<close> and
  \<open>C = -D\<close> give a point at infinity, and in every case other than the doubling the
  result is the distinct-addition formula applied to \<open>p\<close> and \<open>q\<close>. The field is
  required to satisfy \<open>a - a = 0\<close> and \<open>a * 0 = 0\<close>.
\<close>

theorem Jacobain_add_cases:
  assumes sub_self: "\<forall>a. F_is_zero F (F_sub F a a)"
    and mul_zero: "\<forall>a e. F_is_zero F e \<longrightarrow> F_is_zero F (F_mul F a e)"
  shows
    "(is_inf F p \<longrightarrow> Jacobain_add F A p q = q) \<and>
     (\<not> is_inf F p \<and> is_inf F q \<longrightarrow> Jacobain_add F A p q = p) \<and>
     (\<not> is_inf F p \<and> \<not> is_inf F q \<longrightarrow>
        (let ta = F_mul F (F_mul F (pt_z q) (pt_z q)) (pt_x p);
             tb = F_mul F (F_mul F (pt_z p) (pt_z p)) (pt_x q);
             tc = F_mul F (F_mul F (F_mul F (pt_z q) (pt_z q)) (pt_z q)) (pt_y p);
             td = F_mul F (F_mul F (F_mul F (pt_z p) (pt_z p)) (pt_z p)) (pt_y q)
         in (ta = tb \<and> tc = td \<longrightarrow> Jacobain_add F A p q = add_self F A p) \<and>
            (ta = tb \<and> tc \<noteq> td \<and> tc = F_neg F td \<longrightarrow> is_inf F (Jacobain_add F A p q)) \<and>
            (\<not> (ta = tb \<and> tc = td) \<longrightarrow> Jacobain_add F A p q = add_distinct F p q)))"
proof -
  have z: "is_inf F (add_distinct_inner F p q t1 t1 t3 t4)" for t1 t3 t4
    using sub_self mul_zero by (simp add: add_distinct_inner_def is_inf_def Let_def)
  show ?thesis
    using z by (auto simp: Jacobain_add_def add_distinct_def Let_def)
qed

text \<open>
  The field modulo 7 satisfies both requirements of C4, and the three cases for finite
  points occur there.
\<close>

theorem Jacobain_add_cases_witness:
  "is_inf (PrimeField [7 :: 8 word])
     (Jacobain_add (PrimeField [7 :: 8 word]) [1]
        \<lparr>pt_x = [3], pt_y = [5], pt_z = [4]\<rparr> \<lparr>pt_x = [3], pt_y = [2], pt_z = [4]\<rparr>) \<and>
   Jacobain_add (PrimeField [7 :: 8 word]) [1]
        \<lparr>pt_x = [3], pt_y = [5], pt_z = [4]\<rparr> \<lparr>pt_x = [3], pt_y = [5], pt_z = [4]\<rparr> =
     add_self (PrimeField [7 :: 8 word]) [1] \<lparr>pt_x = [3], pt_y = [5], pt_z = [4]\<rparr> \<and>
   Jacobain_add (PrimeField [7 :: 8 word]) [1]
        \<lparr>pt_x = [3], pt_y = [5], pt_z = [4]\<rparr> \<lparr>pt_x = [2], pt_y = [5], pt_z = [4]\<rparr> =
     add_distinct (PrimeField [7 :: 8 word]) \<lparr>pt_x = [3], pt_y = [5], pt_z = [4]\<rparr>
        \<lparr>pt_x = [2], pt_y = [5], pt_z = [4]\<rparr>"
proof -
  let ?F = "PrimeField [7 :: 8 word]"
  let ?p = "\<lparr>pt_x = [3 :: 8 word], pt_y = [5 :: 8 word], pt_z = [4 :: 8 word]\<rparr>"
  let ?n = "\<lparr>pt_x = [3 :: 8 word], pt_y = [2 :: 8 word], pt_z = [4 :: 8 word]\<rparr>"
  let ?r = "\<lparr>pt_x = [2 :: 8 word], pt_y = [5 :: 8 word], pt_z = [4 :: 8 word]\<rparr>"
  have H1: "\<forall>a. F_is_zero ?F (F_sub ?F a a)"
    by (simp add: PrimeField_def ModAddSub_sub_self)
  have H2: "\<forall>a e. F_is_zero ?F e \<longrightarrow> F_is_zero ?F (F_mul ?F a e)"
    by (simp add: PrimeField_def Montgomery_mul_zero)
  have i: "\<not> is_inf ?F ?p" "\<not> is_inf ?F ?n" "\<not> is_inf ?F ?r" by code_simp+
  have c1: "F_mul ?F (F_mul ?F (pt_z ?n) (pt_z ?n)) (pt_x ?p) =
            F_mul ?F (F_mul ?F (pt_z ?p) (pt_z ?p)) (pt_x ?n)" by code_simp
  have c2: "F_mul ?F (F_mul ?F (F_mul ?F (pt_z ?n) (pt_z ?n)) (pt_z ?n)) (pt_y ?p) \<noteq>
            F_mul ?F (F_mul ?F (F_mul ?F (pt_z ?p) (pt_z ?p)) (pt_z ?p)) (pt_y ?n)" by code_simp
  have c3: "F_mul ?F (F_mul ?F (F_mul ?F (pt_z ?n) (pt_z ?n)) (pt_z ?n)) (pt_y ?p) =
            F_neg ?F (F_mul ?F (F_mul ?F (F_mul ?F (pt_z ?p) (pt_z ?p)) (pt_z ?p)) (pt_y ?n))"
    by code_simp
  have c4: "F_mul ?F (F_mul ?F (pt_z ?r) (pt_z ?r)) (pt_x ?p) \<noteq>
            F_mul ?F (F_mul ?F (pt_z ?p) (pt_z ?p)) (pt_x ?r)" by code_simp
  from Jacobain_add_cases[OF H1 H2, where p = "?p" and q = "?n" and A = "[1]"] i c1 c2 c3
  have a: "is_inf ?F (Jacobain_add ?F [1] ?p ?n)" unfolding Let_def by blast
  from Jacobain_add_cases[OF H1 H2, where p = "?p" and q = "?p" and A = "[1]"] i
  have b: "Jacobain_add ?F [1] ?p ?p = add_self ?F [1] ?p" unfolding Let_def by blast
  from Jacobain_add_cases[OF H1 H2, where p = "?p" and q = "?r" and A = "[1]"] i c4
  have c: "Jacobain_add ?F [1] ?p ?r = add_distinct ?F ?p ?r" unfolding Let_def by blast
  from a b c show ?thesis by blast
qed

section \<open>Claims about Pollard lambda\<close>

text \<open>
  The shuffle keeps the number of exponents, and it keeps the exponents themselves when
  \<open>rng.sample(ri)\<close> never exceeds \<open>ri\<close>.
\<close>

lemma shuffle_length:
  "shuffle sample k e rng = Inr (e', rng') \<Longrightarrow> length e' = length e"
proof (induction k arbitrary: e rng)
  case 0
  then show ?case by simp
next
  case (Suc ri)
  obtain j rng1 where s: "sample ri rng = (j, rng1)" by (cases "sample ri rng")
  from Suc.prems s have ok: "ri < length e \<and> j < length e"
    by (auto split: if_splits)
  with Suc.prems s have "shuffle sample ri (e[ri := e ! j, j := e ! ri]) rng1 = Inr (e', rng')"
    by simp
  from Suc.IH[OF this] show ?case by simp
qed

lemma shuffle_perm:
  assumes smp: "\<forall>u r. fst (sample u r) \<le> u"
  shows "k \<le> length e \<Longrightarrow>
         \<exists>e' rng'. shuffle sample k e rng = Inr (e', rng') \<and> mset e' = mset e"
proof (induction k arbitrary: e rng)
  case 0
  then show ?case by simp
next
  case (Suc ri)
  obtain j rng1 where s: "sample ri rng = (j, rng1)" by (cases "sample ri rng")
  from smp have "fst (sample ri rng) \<le> ri" by blast
  with s have jr: "j \<le> ri" by simp
  from Suc.prems have r: "ri < length e" by simp
  with jr have jl: "j < length e" by simp
  let ?e = "e[ri := e ! j, j := e ! ri]"
  have m: "mset ?e = mset e" by (rule mset_swap[OF jl r])
  have l: "ri \<le> length ?e" using r by simp
  from Suc.IH[OF l, of rng1] obtain e' rng' where
    "shuffle sample ri ?e rng1 = Inr (e', rng')" "mset e' = mset ?e" by blast
  with m s r jl show ?case by simp
qed

lemma jump_table_entries:
  assumes "jump_table S P sample m g rng = Inr (sl, pl, rng')"
  shows "length sl = m \<and> length pl = m \<and> (\<forall>i<m. pl ! i = P_mul P (sl ! i) g)"
proof -
  define l0 where "l0 = map (\<lambda>i. i mod 2 ^ S_limb_bits S) [0..<m]"
  from assms obtain l where
    sh: "shuffle sample m l0 rng = Inr (l, rng')"
    and sl: "sl = map (S_set_pow2 S) (map (\<lambda>v. v mod 2 ^ P_field_limb_bits P) l)"
    and pl: "pl = map (\<lambda>i. P_mul P (S_set_pow2 S i) g)
                    (map (\<lambda>v. v mod 2 ^ P_field_limb_bits P) l)"
    unfolding jump_table_def l0_def[symmetric] Let_def
    by (cases "shuffle sample m l0 rng") auto
  from shuffle_length[OF sh] have "length l = m" by (simp add: l0_def)
  then show ?thesis unfolding sl pl by simp
qed

text \<open>
  Facts for a table that is longer than an 8-bit limb can count: a generator that always
  returns \<open>ri\<close> leaves the entries in place, the index 256 is stored as 0, and the
  scalars of 33 limbs tell \<open>2^256\<close> from every smaller power.
\<close>

lemma shuffle_sample_top:
  "k \<le> length e \<Longrightarrow> shuffle sample_top k e rng = Inr (e, rng)"
  by (induction k) (simp_all add: sample_top_def)

lemma length_nat_to_seq: "length (nat_to_seq n v) = n"
  by (induction n arbitrary: v) simp_all

lemma seq_val_nat_to_seq:
  "seq_val (nat_to_seq n v :: 'a::len limbs) = v mod 2 ^ (LENGTH('a) * n)"
proof (induction n arbitrary: v)
  case 0
  then show ?case by simp
next
  case (Suc n)
  define B :: nat where "B = 2 ^ LENGTH('a)"
  have "seq_val (nat_to_seq (Suc n) v :: 'a limbs) = v mod B + B * (v div B mod B ^ n)"
    by (simp add: Suc unat_of_nat_limb B_def power_mult)
  also have "\<dots> = v mod (B * B ^ n)" by (simp add: mod_mult2_eq)
  finally show ?case by (simp add: B_def power_mult power_add)
qed

lemma bit_length_pow2: "bit_length (2 ^ k) = Suc k"
  by (induction k) (simp_all add: bit_length.simps[of "2 * 2 ^ _"] bit_length.simps[of "Suc 0"] bit_length.simps[of 0])

lemma sub_with_borrow_zero:
  "sub_with_borrow False xs (replicate (length xs) 0) = (xs, False)"
proof (induction xs)
  case Nil
  then show ?case by simp
next
  case (Cons x xs)
  have "(of_nat (unat x + 2 ^ LENGTH('a)) :: 'a::len word) = x" by simp
  then show ?case using Cons by (simp add: Let_def)
qed

lemma wrap_257: "map (\<lambda>i. i mod 2 ^ 8) [0..<257] = [0..<256] @ [0 :: nat]"
proof -
  have "[0..<257] = [0..<256] @ [256 :: nat]"
    using upt_Suc_append[of 0 256] by simp
  moreover have "map (\<lambda>i. i mod 2 ^ 8) [0..<256] = [0..<256 :: nat]"
    by (intro map_idI) simp
  ultimately show ?thesis by simp
qed

lemma wrap_again: "map (\<lambda>v. v mod 2 ^ 8) ([0..<256] @ [0 :: nat]) = [0..<256] @ [0]"
  by (intro map_idI) auto

lemma seq_val_set_pow2_wide:
  "e < 264 \<Longrightarrow> seq_val (set_pow2 33 e :: 8 limbs) = 2 ^ e"
proof -
  assume "e < 264"
  then have "(2 :: nat) ^ e < 2 ^ 264" by (rule power_strict_increasing) simp
  then show ?thesis by (simp add: set_pow2_def seq_val_nat_to_seq)
qed

lemma length_wide_MOD: "length wide_MOD = 33"
  by (simp add: wide_MOD_def length_nat_to_seq)

text \<open>
  Claim C8, as stated, fails when the table has more entries than a limb can count. With
  33 limbs of 8 bits, \<open>a = 0\<close> and \<open>b = 2^257\<close> (both below the modulus) the table
  length is \<open>m = 257\<close>; the index 256 is stored in limb 0 as \<open>0\<close>, so the exponents
  are \<open>0, ..., 255, 0\<close>: the power \<open>2^0\<close> is there twice and \<open>2^256\<close> is missing.
\<close>

theorem jump_table_wraps_exponents:
  "seq_val (set_zero 33 :: 8 limbs) < seq_val (set_pow2 33 257 :: 8 limbs) \<and>
   seq_val (set_pow2 33 257 :: 8 limbs) < seq_val wide_MOD \<and>
   table_size (Scalar wide_MOD sample_lower) (set_zero 33) (set_pow2 33 257) = 257 \<and>
   jump_table (Scalar wide_MOD sample_lower) limb_point sample_top 257 1 0 =
     Inr (map (S_set_pow2 (Scalar wide_MOD sample_lower)) ([0..<256] @ [0]),
          map (\<lambda>i. P_mul limb_point (S_set_pow2 (Scalar wide_MOD sample_lower) i) 1)
            ([0..<256] @ [0]), 0) \<and>
   mset (map (S_set_pow2 (Scalar wide_MOD sample_lower)) ([0..<256] @ [0])) \<noteq>
     mset (map (S_set_pow2 (Scalar wide_MOD sample_lower)) [0..<257])"
proof -
  let ?S = "Scalar wide_MOD sample_lower"
  have z: "seq_val (set_zero 33 :: 8 limbs) = 0"
    by (simp add: set_zero_def is_zero_val is_zero_replicate)
  have b: "seq_val (set_pow2 33 257 :: 8 limbs) = 2 ^ 257"
    by (rule seq_val_set_pow2_wide) simp
  have M: "seq_val wide_MOD = 2 ^ 264 - 1"
    by (simp add: wide_MOD_def seq_val_nat_to_seq)
  have c1: "seq_val (set_zero 33 :: 8 limbs) < seq_val (set_pow2 33 257 :: 8 limbs)"
    unfolding z b by simp
  have c2: "seq_val (set_pow2 33 257 :: 8 limbs) < seq_val wide_MOD"
    unfolding b M by simp
  have lb: "length (set_pow2 33 257 :: 8 limbs) = 33"
    by (simp add: set_pow2_def length_nat_to_seq)
  have "seq_sub (set_pow2 33 257 :: 8 limbs) (set_zero 33) = (set_pow2 33 257, False)"
    using sub_with_borrow_zero[of "set_pow2 33 257 :: 8 limbs"]
    by (simp add: seq_sub_def set_zero_def lb)
  then have sub: "S_sub ?S (set_pow2 33 257) (set_zero 33) = set_pow2 33 257"
    by (simp add: Scalar_def ModAddSub_sub_def)
  have "most_significant_bit (set_pow2 33 257 :: 8 limbs) = Suc 257"
    unfolding most_significant_bit_def b by (rule bit_length_pow2)
  then have "S_most_significant_bit ?S (set_pow2 33 257) = 258"
    by (simp add: Scalar_def)
  then have c3: "table_size ?S (set_zero 33) (set_pow2 33 257) = 257"
    by (simp add: table_size_def sub)
  have bits: "S_limb_bits ?S = 8" "P_field_limb_bits limb_point = 8"
    by (simp_all add: Scalar_def limb_point_def)
  have l: "257 \<le> length ([0..<256] @ [0 :: nat])" by simp
  have c4: "jump_table ?S limb_point sample_top 257 1 0 =
     Inr (map (S_set_pow2 ?S) ([0..<256] @ [0]),
          map (\<lambda>i. P_mul limb_point (S_set_pow2 ?S i) 1) ([0..<256] @ [0]), 0)"
    unfolding jump_table_def bits wrap_257 shuffle_sample_top[OF l]
    by (simp only: sum.case prod.case Let_def wrap_again)
  have c5: "mset (map (S_set_pow2 ?S) ([0..<256] @ [0])) \<noteq>
            mset (map (S_set_pow2 ?S) [0..<257])"
  proof
    assume "mset (map (S_set_pow2 ?S) ([0..<256] @ [0])) = mset (map (S_set_pow2 ?S) [0..<257])"
    then have "set (map (S_set_pow2 ?S) ([0..<256] @ [0])) = set (map (S_set_pow2 ?S) [0..<257])"
      by (rule mset_eq_setD)
    moreover have "S_set_pow2 ?S 256 \<in> set (map (S_set_pow2 ?S) [0..<257])" by simp
    ultimately have "S_set_pow2 ?S 256 \<in> set (map (S_set_pow2 ?S) ([0..<256] @ [0]))" by simp
    then obtain e where e: "e < 256" and eq: "S_set_pow2 ?S 256 = S_set_pow2 ?S e" by auto
    from eq have "seq_val (set_pow2 33 256 :: 8 limbs) = seq_val (set_pow2 33 e :: 8 limbs)"
      by (simp add: Scalar_def length_wide_MOD)
    moreover have "seq_val (set_pow2 33 256 :: 8 limbs) = 2 ^ 256"
      by (rule seq_val_set_pow2_wide) simp
    moreover have "seq_val (set_pow2 33 e :: 8 limbs) = 2 ^ e"
      by (rule seq_val_set_pow2_wide) (use e in simp)
    ultimately have "(2 :: nat) ^ 256 = 2 ^ e" by (simp only:)
    then have "256 = e" by (rule power_inject_exp[THEN iffD1, rotated]) simp
    with e show False by simp
  qed
  from c1 c2 c3 c4 c5 show ?thesis by blast
qed

text \<open>
  Claim C8, amended. When \<open>rng.sample(ri)\<close> returns an index not above \<open>ri\<close> and
  the limb types of \<open>S\<close> and of the field of \<open>P\<close> can hold every index below
  \<open>m\<close> (\<open>m \<le> 2^W\<close> for both widths), the construction of the jump table succeeds,
  in \<open>pollard_lambda\<close> and in worker 0 of the multithreaded solver alike; the exponents
  \<open>e\<close> it leaves are a permutation of \<open>0, ..., m - 1\<close>, so that \<open>sl\<close> holds each
  power \<open>2^0, ..., 2^(m-1)\<close> once, and \<open>pl[i] = sl[i] * g\<close> for every \<open>i < m\<close>.
\<close>

theorem jump_table_permutation:
  assumes smp: "\<forall>u r. fst (sample u r) \<le> u"
    and fitS: "m \<le> 2 ^ S_limb_bits S"
    and fitF: "m \<le> 2 ^ P_field_limb_bits P"
  shows "\<exists>e rng'.
           jump_table S P sample m g rng =
             Inr (map (S_set_pow2 S) e, map (\<lambda>i. P_mul P (S_set_pow2 S i) g) e, rng') \<and>
           worker_jump_table S P sample 0 (replicate m s0) (replicate m p0) g rng =
             Inr (map (S_set_pow2 S) e, map (\<lambda>i. P_mul P (S_set_pow2 S i) g) e, rng') \<and>
           mset e = mset [0..<m] \<and> distinct e \<and> set e = {0..<m} \<and> length e = m \<and>
           mset (map (S_set_pow2 S) e) = mset (map (S_set_pow2 S) [0..<m]) \<and>
           (\<forall>i<m. map (\<lambda>i. P_mul P (S_set_pow2 S i) g) e ! i =
                   P_mul P (map (S_set_pow2 S) e ! i) g)"
proof -
  have i0: "map (\<lambda>i. i mod 2 ^ S_limb_bits S) [0..<m] = [0..<m]"
    using fitS by (intro map_idI) simp
  have "m \<le> length [0..<m]" by simp
  from shuffle_perm[OF smp this, of rng] obtain e rng' where
    sh: "shuffle sample m [0..<m] rng = Inr (e, rng')" and ms: "mset e = mset [0..<m]"
    by blast
  have st: "set e = {0..<m}" using ms by (metis mset_eq_setD set_upt)
  have i1: "map (\<lambda>v. v mod 2 ^ P_field_limb_bits P) e = e"
    using fitF st by (intro map_idI) auto
  have jt: "jump_table S P sample m g rng =
             Inr (map (S_set_pow2 S) e, map (\<lambda>i. P_mul P (S_set_pow2 S i) g) e, rng')"
    unfolding jump_table_def i0 sh by (simp add: Let_def i1 del: map_map)
  have wt: "worker_jump_table S P sample 0 (replicate m s0) (replicate m p0) g rng =
             Inr (map (S_set_pow2 S) e, map (\<lambda>i. P_mul P (S_set_pow2 S i) g) e, rng')"
    using jt by (simp add: worker_jump_table_def)
  have d: "distinct e" using ms by (metis distinct_upt mset_eq_imp_distinct_iff)
  have le: "length e = m" using ms by (metis length_upt mset_eq_length minus_nat.diff_0)
  have mp: "mset (map (S_set_pow2 S) e) = mset (map (S_set_pow2 S) [0..<m])"
    using ms by (metis mset_map)
  have en: "\<forall>i<m. map (\<lambda>i. P_mul P (S_set_pow2 S i) g) e ! i =
                   P_mul P (map (S_set_pow2 S) e ! i) g"
    using le by simp
  from jt wt ms d st le mp en show ?thesis by blast
qed

text \<open>
  The linear congruential generator keeps its samples in range and three indices fit a
  4-bit limb; with \<open>m = 3\<close> it produces the table \<open>4, 2, 1\<close>.
\<close>

theorem jump_table_permutation_witness:
  "jump_table Z16_scalar Z16_point lcg_sample 3 1 0 = Inr ([4, 2, 1], [4, 2, 1], 13) \<and>
   mset [4, 2, 1 :: 4 word] = mset (map (S_set_pow2 Z16_scalar) [0..<3])"
proof -
  have h: "\<forall>u r. fst (lcg_sample u r) \<le> u"
    by (simp add: lcg_sample_def)
  have f1: "(3 :: nat) \<le> 2 ^ S_limb_bits Z16_scalar" by (simp add: Z16_scalar_def)
  have f2: "(3 :: nat) \<le> 2 ^ P_field_limb_bits Z16_point" by (simp add: Z16_point_def)
  have e: "jump_table Z16_scalar Z16_point lcg_sample 3 1 0 = Inr ([4, 2, 1], [4, 2, 1], 13)"
    by code_simp
  from jump_table_permutation[OF h f1 f2, of 1 0]
  obtain es rng' where
    j: "jump_table Z16_scalar Z16_point lcg_sample 3 1 0 =
         Inr (map (S_set_pow2 Z16_scalar) es,
              map (\<lambda>i. P_mul Z16_point (S_set_pow2 Z16_scalar i) 1) es, rng')"
    and m: "mset (map (S_set_pow2 Z16_scalar) es) = mset (map (S_set_pow2 Z16_scalar) [0..<3])"
    by blast
  from j e have "map (S_set_pow2 Z16_scalar) es = [4, 2, 1]" by simp
  with m e show ?thesis by simp
qed

text \<open>
  Induction rules for the three loops, with the arguments that do not change fixed.
\<close>

lemma tame_walk_rule:
  assumes run: "tame_walk S P m sl pl bound idx x u = Some r"
    and step: "\<And>w idx x u r.
      (\<And>idx' x' u' r'. w idx' x' u' = Some r' \<Longrightarrow> Q idx' x' u' r') \<Longrightarrow>
      (if S_less S idx bound
       then if m = 0 then Some (Inl DivisionByZero)
            else let i = P_x_limb0 P u mod m
                 in w (S_add S idx (S_set_one S)) (S_add S x (sl ! i)) (P_add P u (pl ! i))
       else Some (Inr (x, u))) = Some r \<Longrightarrow> Q idx x u r"
  shows "Q idx x u r"
proof -
  let ?Pa = "\<lambda>a r. fst (fst (fst a)) = (((((S, P), m), sl), pl), bound) \<longrightarrow>
                Q (snd (fst (fst a))) (snd (fst a)) (snd a) r"
  have "?Pa ((((((((S, P), m), sl), pl), bound), idx), x), u) r"
  proof (rule tame_walk.raw_induct[where Pa = ?Pa and
          xa = "((((((((S, P), m), sl), pl), bound), idx), x), u)" and y = r])
    show "(case ((((((((S, P), m), sl), pl), bound), idx), x), u) of
            (x, xa) \<Rightarrow> (case x of (x, xa) \<Rightarrow> (case x of (x, xa) \<Rightarrow> (case x of (x, xa) \<Rightarrow>
            (case x of (x, xa) \<Rightarrow> (case x of (x, xa) \<Rightarrow> (case x of (x, xa) \<Rightarrow>
            (case x of (x, xa) \<Rightarrow> tame_walk x xa) xa) xa) xa) xa) xa) xa) xa) = Some r"
      using run by simp
  next
    fix f S0 P0 m0 sl0 pl0 bound0 idx0 x0 u0 r0
    assume IH: "\<And>P m sl pl bound idx x u b y. f P m sl pl bound idx x u b = Some y \<Longrightarrow>
                  ?Pa ((((((((P, m), sl), pl), bound), idx), x), u), b) y"
      and body: "(if S_less S0 idx0 bound0
       then if m0 = 0 then Some (Inl DivisionByZero)
            else let i = P_x_limb0 P0 u0 mod m0
                 in f S0 P0 m0 sl0 pl0 bound0 (S_add S0 idx0 (S_set_one S0))
                      (S_add S0 x0 (sl0 ! i)) (P_add P0 u0 (pl0 ! i))
       else Some (Inr (x0, u0))) = Some r0"
    show "?Pa ((((((((S0, P0), m0), sl0), pl0), bound0), idx0), x0), u0) r0"
    proof (simp only: fst_conv snd_conv, intro impI)
      assume e: "(((((S0, P0), m0), sl0), pl0), bound0) = (((((S, P), m), sl), pl), bound)"
      have IH': "f S P m sl pl bound idx' x' u' = Some r' \<Longrightarrow> Q idx' x' u' r'" for idx' x' u' r'
        using IH[of S P m sl pl bound idx' x' u' r'] by simp
      from e have eqs: "S0 = S" "P0 = P" "m0 = m" "sl0 = sl" "pl0 = pl" "bound0 = bound"
        by simp_all
      have "(if S_less S idx0 bound
       then if m = 0 then Some (Inl DivisionByZero)
            else let i = P_x_limb0 P u0 mod m
                 in f S P m sl pl bound (S_add S idx0 (S_set_one S))
                      (S_add S x0 (sl ! i)) (P_add P u0 (pl ! i))
       else Some (Inr (x0, u0))) = Some r0" using body unfolding eqs .
      from step[of "f S P m sl pl bound", OF IH' this] show "Q idx0 x0 u0 r0" .
    qed
  qed
  then show ?thesis by simp
qed

lemma wild_walk_rule:
  assumes run: "wild_walk S P m sl pl bound x u idx d v = Some r"
    and step: "\<And>w idx d v r.
      (\<And>idx' d' v' r'. w idx' d' v' = Some r' \<Longrightarrow> Q idx' d' v' r') \<Longrightarrow>
      (if S_less S idx bound
       then if P_eq P u v then Some (Inr (Some (S_sub S x d)))
            else if m = 0 then Some (Inl DivisionByZero)
            else let j = P_x_limb0 P v mod m
                 in w (S_add S idx (S_set_one S)) (S_add S d (sl ! j)) (P_add P v (pl ! j))
       else Some (Inr None)) = Some r \<Longrightarrow> Q idx d v r"
  shows "Q idx d v r"
proof -
  let ?Pa = "\<lambda>a r. fst (fst (fst a)) = (((((((S, P), m), sl), pl), bound), x), u) \<longrightarrow>
                Q (snd (fst (fst a))) (snd (fst a)) (snd a) r"
  have "?Pa ((((((((((S, P), m), sl), pl), bound), x), u), idx), d), v) r"
  proof (rule wild_walk.raw_induct[rotated, where Pa = ?Pa and
          xa = "((((((((((S, P), m), sl), pl), bound), x), u), idx), d), v)" and y = r],
         goal_cases)
    case 1
    show ?case using run by simp
  next
    case (2 f S0 P0 m0 sl0 pl0 bound0 x0 u0 idx0 d0 v0 r0)
    show ?case
    proof (simp only: fst_conv snd_conv, intro impI)
      assume e: "(((((((S0, P0), m0), sl0), pl0), bound0), x0), u0) =
                 (((((((S, P), m), sl), pl), bound), x), u)"
      from e have eqs: "S0 = S" "P0 = P" "m0 = m" "sl0 = sl" "pl0 = pl" "bound0 = bound"
        "x0 = x" "u0 = u"
        by simp_all
      have IH': "f S P m sl pl bound x u idx' d' v' = Some r' \<Longrightarrow> Q idx' d' v' r'"
        for idx' d' v' r'
        using 2(1)[of S P m sl pl bound x u idx' d' v' r'] by simp
      have "(if S_less S idx0 bound
       then if P_eq P u v0 then Some (Inr (Some (S_sub S x d0)))
            else if m = 0 then Some (Inl DivisionByZero)
            else let j = P_x_limb0 P v0 mod m
                 in f S P m sl pl bound x u (S_add S idx0 (S_set_one S)) (S_add S d0 (sl ! j))
                      (P_add P v0 (pl ! j))
       else Some (Inr None)) = Some r0" using 2(2) unfolding eqs .
      from step[of "f S P m sl pl bound x u", OF IH' this] show "Q idx0 d0 v0 r0" .
    qed
  qed
  then show ?thesis by simp
qed

lemma pollard_lambda_rule:
  assumes run: "pollard_lambda S P sample bound a b g h rng = Some r"
    and step: "\<And>w rng r.
      (\<And>rng' r'. w rng' = Some r' \<Longrightarrow> Q rng' r') \<Longrightarrow>
      (let m = table_size S a b
       in case jump_table S P sample m g rng of
           Inl err \<Rightarrow> Some (Inl err)
         | Inr (sl, pl, rng) \<Rightarrow>
             (let (x, rng) = S_sample_inclusive S a b rng;
                  u = P_mul P x g
              in case tame_walk S P m sl pl bound (S_set_zero S) x u of
                   None \<Rightarrow> None
                 | Some (Inl err) \<Rightarrow> Some (Inl err)
                 | Some (Inr (x, u)) \<Rightarrow>
                     (case wild_walk S P m sl pl bound x u (S_set_zero S) (S_set_zero S) h of
                        None \<Rightarrow> None
                      | Some (Inl err) \<Rightarrow> Some (Inl err)
                      | Some (Inr (Some x)) \<Rightarrow> Some (Inr x)
                      | Some (Inr None) \<Rightarrow> w rng))) = Some r \<Longrightarrow> Q rng r"
  shows "Q rng r"
proof -
  let ?Pa = "\<lambda>t r. fst t = (((((((S, P), sample), bound), a), b), g), h) \<longrightarrow> Q (snd t) r"
  have "?Pa ((((((((S, P), sample), bound), a), b), g), h), rng) r"
  proof (rule pollard_lambda.raw_induct[rotated, OF run, where Pa = ?Pa], goal_cases)
    case (1 f S0 P0 sample0 bound0 a0 b0 g0 h0 rng0 r0)
    show ?case
    proof (simp only: fst_conv snd_conv, intro impI)
      assume e: "(((((((S0, P0), sample0), bound0), a0), b0), g0), h0) =
                 (((((((S, P), sample), bound), a), b), g), h)"
      from e have eqs: "S0 = S" "P0 = P" "sample0 = sample" "bound0 = bound" "a0 = a"
        "b0 = b" "g0 = g" "h0 = h"
        by simp_all
      have IH': "f S P sample bound a b g h rng' = Some r' \<Longrightarrow> Q rng' r'" for rng' r'
        using 1(1)[of S P sample bound a b g h rng' r'] by simp
      have "(let m = table_size S a b
       in case jump_table S P sample m g rng0 of
           Inl err \<Rightarrow> Some (Inl err)
         | Inr (sl, pl, rng) \<Rightarrow>
             (let (x, rng) = S_sample_inclusive S a b rng;
                  u = P_mul P x g
              in case tame_walk S P m sl pl bound (S_set_zero S) x u of
                   None \<Rightarrow> None
                 | Some (Inl err) \<Rightarrow> Some (Inl err)
                 | Some (Inr (x, u)) \<Rightarrow>
                     (case wild_walk S P m sl pl bound x u (S_set_zero S) (S_set_zero S) h of
                        None \<Rightarrow> None
                      | Some (Inl err) \<Rightarrow> Some (Inl err)
                      | Some (Inr (Some x)) \<Rightarrow> Some (Inr x)
                      | Some (Inr None) \<Rightarrow> f S P sample bound a b g h rng))) = Some r0"
        using 1(2) unfolding eqs .
      from step[of "f S P sample bound a b g h", OF IH' this] show "Q rng0 r0" .
    qed
  qed
  then show ?thesis by simp
qed

text \<open>
  The invariants of the walks: the tame walk keeps \<open>u = x * g\<close>, the wild walk keeps
  \<open>v = h + d * g\<close>. The points are compared through a map \<open>\<phi>\<close> into a commutative
  group, which \<open>P::add\<close> and the scalar multiples of \<open>g\<close> respect.
\<close>

lemma tame_walk_invariant:
  fixes \<phi> :: "'p \<Rightarrow> 'g::ab_group_add"
    and S :: "('s, 'r) SCALAR_T" and P :: "('s, 'p) POINT_T"
  assumes add: "\<forall>p q. \<phi> (P_add P p q) = \<phi> p + \<phi> q"
    and mul_add: "\<forall>k j. \<phi> (P_mul P (S_add S k j) g) = \<phi> (P_mul P k g) + \<phi> (P_mul P j g)"
    and tbl: "\<forall>i<m. pl ! i = P_mul P (sl ! i) g"
    and run: "tame_walk S P m sl pl bound idx x u = Some (Inr (x', u'))"
    and inv: "\<phi> u = \<phi> (P_mul P x g)"
  shows "\<phi> u' = \<phi> (P_mul P x' g)"
proof -
  let ?Q = "\<lambda>(idx :: 's) x u (r :: lambda_error + 's \<times> 'p). r = Inr (x', u') \<longrightarrow> \<phi> u = \<phi> (P_mul P x g) \<longrightarrow>
              \<phi> u' = \<phi> (P_mul P x' g)"
  have "?Q idx x u (Inr (x', u'))"
  proof (rule tame_walk_rule[where Q = ?Q, OF run])
    fix w idx x u r
    assume IH: "\<And>idx' x' u' r'. w idx' x' u' = Some r' \<Longrightarrow> ?Q idx' x' u' r'"
      and body: "(if S_less S idx bound
       then if m = 0 then Some (Inl DivisionByZero)
            else let i = P_x_limb0 P u mod m
                 in w (S_add S idx (S_set_one S)) (S_add S x (sl ! i)) (P_add P u (pl ! i))
       else Some (Inr (x, u))) = Some r"
    show "?Q idx x u r"
    proof (intro impI)
    assume r: "r = Inr (x', u')" and i: "\<phi> u = \<phi> (P_mul P x g)"
    show "\<phi> u' = \<phi> (P_mul P x' g)"
    proof (cases "S_less S idx bound")
      case False
      with body r i show ?thesis by simp
    next
      case True
      with body r have m0: "m \<noteq> 0" by (auto split: if_splits)
      define k where "k = P_x_limb0 P u mod m"
      have km: "k < m" using m0 by (simp add: k_def)
      from body True m0 have
        call: "w (S_add S idx (S_set_one S)) (S_add S x (sl ! k)) (P_add P u (pl ! k)) = Some r"
        by (simp add: k_def Let_def)
      have "\<phi> (P_add P u (pl ! k)) = \<phi> (P_mul P (S_add S x (sl ! k)) g)"
        using add mul_add tbl km i by simp
      with IH[OF call] r show ?thesis by simp
    qed
    qed
  qed
  with inv show ?thesis by simp
qed

lemma wild_walk_invariant:
  fixes \<phi> :: "'p \<Rightarrow> 'g::ab_group_add"
    and S :: "('s, 'r) SCALAR_T" and P :: "('s, 'p) POINT_T"
  assumes add: "\<forall>p q. \<phi> (P_add P p q) = \<phi> p + \<phi> q"
    and mul_add: "\<forall>k j. \<phi> (P_mul P (S_add S k j) g) = \<phi> (P_mul P k g) + \<phi> (P_mul P j g)"
    and tbl: "\<forall>i<m. pl ! i = P_mul P (sl ! i) g"
    and run: "wild_walk S P m sl pl bound x u idx d v = Some (Inr (Some y))"
    and inv: "\<phi> v = \<phi> h + \<phi> (P_mul P d g)"
  shows "\<exists>d' v'. y = S_sub S x d' \<and> P_eq P u v' \<and> \<phi> v' = \<phi> h + \<phi> (P_mul P d' g)"
proof -
  let ?Q = "\<lambda>(idx :: 's) d v (r :: lambda_error + 's option). r = Inr (Some y) \<longrightarrow> \<phi> v = \<phi> h + \<phi> (P_mul P d g) \<longrightarrow>
              (\<exists>d' v'. y = S_sub S x d' \<and> P_eq P u v' \<and> \<phi> v' = \<phi> h + \<phi> (P_mul P d' g))"
  have "?Q idx d v (Inr (Some y))"
  proof (rule wild_walk_rule[where Q = ?Q, OF run])
    fix w idx d v r
    assume IH: "\<And>idx' d' v' r'. w idx' d' v' = Some r' \<Longrightarrow> ?Q idx' d' v' r'"
      and body: "(if S_less S idx bound
       then if P_eq P u v then Some (Inr (Some (S_sub S x d)))
            else if m = 0 then Some (Inl DivisionByZero)
            else let j = P_x_limb0 P v mod m
                 in w (S_add S idx (S_set_one S)) (S_add S d (sl ! j)) (P_add P v (pl ! j))
       else Some (Inr None)) = Some r"
    show "?Q idx d v r"
    proof (intro impI)
    assume r: "r = Inr (Some y)" and i: "\<phi> v = \<phi> h + \<phi> (P_mul P d g)"
    from body r have less: "S_less S idx bound" by (auto split: if_splits)
    show "\<exists>d' v'. y = S_sub S x d' \<and> P_eq P u v' \<and> \<phi> v' = \<phi> h + \<phi> (P_mul P d' g)"
    proof (cases "P_eq P u v")
      case True
      with body less r have "y = S_sub S x d" by simp
      with True i show ?thesis by blast
    next
      case False
      with body less r have m0: "m \<noteq> 0" by (auto split: if_splits)
      define k where "k = P_x_limb0 P v mod m"
      have km: "k < m" using m0 by (simp add: k_def)
      from body less False m0 have
        call: "w (S_add S idx (S_set_one S)) (S_add S d (sl ! k)) (P_add P v (pl ! k)) = Some r"
        by (simp add: k_def Let_def)
      have "\<phi> (P_add P v (pl ! k)) = \<phi> h + \<phi> (P_mul P (S_add S d (sl ! k)) g)"
        using add mul_add tbl km i by (simp add: add.assoc)
      with IH[OF call] r show ?thesis by simp
    qed
    qed
  qed
  with inv show ?thesis by simp
qed

text \<open>
  Claim C5. Let \<open>\<phi>\<close> map the points into a commutative group such that \<open>P::eq\<close> is
  equality of the images, \<open>P::add\<close> is the addition of the images, and
  \<open>k \<mapsto> k * g\<close> turns \<open>S::add\<close>, \<open>S::sub\<close> and the zero scalar into the group
  operations. Whenever \<open>pollard_lambda\<close> returns a scalar \<open>x\<close>, it is
  \<open>x\<^sub>T - d\<close> for the scalars of two colliding points \<open>U = x\<^sub>T * g\<close> and
  \<open>V = h + d * g\<close>, and \<open>x * g = h\<close>.
\<close>

theorem pollard_lambda_returns_log:
  fixes \<phi> :: "'p \<Rightarrow> 'g::ab_group_add"
    and S :: "('s, 'r) SCALAR_T" and P :: "('s, 'p) POINT_T"
  assumes eq: "\<forall>p q. P_eq P p q \<longleftrightarrow> \<phi> p = \<phi> q"
    and add: "\<forall>p q. \<phi> (P_add P p q) = \<phi> p + \<phi> q"
    and mul_add: "\<forall>k j. \<phi> (P_mul P (S_add S k j) g) = \<phi> (P_mul P k g) + \<phi> (P_mul P j g)"
    and mul_sub: "\<forall>k j. \<phi> (P_mul P (S_sub S k j) g) = \<phi> (P_mul P k g) - \<phi> (P_mul P j g)"
    and mul_zero: "\<phi> (P_mul P (S_set_zero S) g) = 0"
    and run: "pollard_lambda S P sample bound a b g h rng = Some (Inr x)"
  shows "P_eq P (P_mul P x g) h \<and>
         (\<exists>x\<^sub>T d U V. x = S_sub S x\<^sub>T d \<and> P_eq P U V \<and>
            \<phi> U = \<phi> (P_mul P x\<^sub>T g) \<and> \<phi> V = \<phi> h + \<phi> (P_mul P d g))"
proof -
  let ?C = "\<lambda>x. P_eq P (P_mul P x g) h \<and>
         (\<exists>x\<^sub>T d U V. x = S_sub S x\<^sub>T d \<and> P_eq P U V \<and>
            \<phi> U = \<phi> (P_mul P x\<^sub>T g) \<and> \<phi> V = \<phi> h + \<phi> (P_mul P d g))"
  let ?Q = "\<lambda>(rng :: 'r) (r :: lambda_error + 's). r = Inr x \<longrightarrow> ?C x"
  have "?Q rng (Inr x)"
  proof (rule pollard_lambda_rule[where Q = ?Q, OF run])
    fix w rng r
    assume IH: "\<And>rng' r'. w rng' = Some r' \<Longrightarrow> ?Q rng' r'"
      and body: "(let m = table_size S a b
       in case jump_table S P sample m g rng of
           Inl err \<Rightarrow> Some (Inl err)
         | Inr (sl, pl, rng) \<Rightarrow>
             (let (x, rng) = S_sample_inclusive S a b rng;
                  u = P_mul P x g
              in case tame_walk S P m sl pl bound (S_set_zero S) x u of
                   None \<Rightarrow> None
                 | Some (Inl err) \<Rightarrow> Some (Inl err)
                 | Some (Inr (x, u)) \<Rightarrow>
                     (case wild_walk S P m sl pl bound x u (S_set_zero S) (S_set_zero S) h of
                        None \<Rightarrow> None
                      | Some (Inl err) \<Rightarrow> Some (Inl err)
                      | Some (Inr (Some x)) \<Rightarrow> Some (Inr x)
                      | Some (Inr None) \<Rightarrow> w rng))) = Some r"
    show "?Q rng r"
    proof (intro impI)
    assume r: "r = Inr x"
    define m where "m = table_size S a b"
    from body r obtain sl pl rng1 where
      jt: "jump_table S P sample m g rng = Inr (sl, pl, rng1)"
      by (auto simp: m_def Let_def split: sum.splits)
    obtain x0 rng2 where smp: "S_sample_inclusive S a b rng1 = (x0, rng2)"
      by (cases "S_sample_inclusive S a b rng1")
    from body r jt smp obtain x\<^sub>T u where
      tw: "tame_walk S P m sl pl bound (S_set_zero S) x0 (P_mul P x0 g) = Some (Inr (x\<^sub>T, u))"
      by (auto simp: m_def[symmetric] Let_def split: option.splits sum.splits)
    from body r jt smp tw have
      ww: "(case wild_walk S P m sl pl bound x\<^sub>T u (S_set_zero S) (S_set_zero S) h of
                        None \<Rightarrow> None
                      | Some (Inl err) \<Rightarrow> Some (Inl err)
                      | Some (Inr (Some x)) \<Rightarrow> Some (Inr x)
                      | Some (Inr None) \<Rightarrow> w rng2) = Some (Inr x)"
      by (simp add: m_def[symmetric] Let_def)
    from jump_table_entries[OF jt] have tbl: "\<forall>i<m. pl ! i = P_mul P (sl ! i) g" by blast
    have U: "\<phi> u = \<phi> (P_mul P x\<^sub>T g)"
      by (rule tame_walk_invariant[OF add mul_add tbl tw refl])
    show "?C x"
    proof (cases "wild_walk S P m sl pl bound x\<^sub>T u (S_set_zero S) (S_set_zero S) h")
      case None
      with ww show ?thesis by simp
    next
      case (Some res)
      show ?thesis
      proof (cases res)
        case (Inl err)
        with Some ww show ?thesis by simp
      next
        case (Inr found)
        show ?thesis
        proof (cases found)
          case None
          with Some Inr ww have "w rng2 = Some (Inr x)" by simp
          from IH[OF this] show ?thesis by simp
        next
          case (Some y)
          with \<open>wild_walk S P m sl pl bound x\<^sub>T u (S_set_zero S) (S_set_zero S) h = Some res\<close>
            Inr ww
          have yx: "y = x"
            and w1: "wild_walk S P m sl pl bound x\<^sub>T u (S_set_zero S) (S_set_zero S) h =
                     Some (Inr (Some x))"
            by simp_all
          have i0: "\<phi> h = \<phi> h + \<phi> (P_mul P (S_set_zero S) g)" using mul_zero by simp
          from wild_walk_invariant[OF add mul_add tbl w1 i0] obtain d V where
            x: "x = S_sub S x\<^sub>T d" and c: "P_eq P u V" and V: "\<phi> V = \<phi> h + \<phi> (P_mul P d g)"
            by blast
          from c eq have "\<phi> u = \<phi> V" by simp
          with U V have "\<phi> (P_mul P x\<^sub>T g) = \<phi> h + \<phi> (P_mul P d g)" by simp
          then have "\<phi> (P_mul P x\<^sub>T g) - \<phi> (P_mul P d g) = \<phi> h"
            by (simp only: add_diff_cancel_right')
          with mul_sub x have "\<phi> (P_mul P x g) = \<phi> h" by simp
          with eq have "P_eq P (P_mul P x g) h" by simp
          with x c U V show ?thesis by blast
        qed
      qed
    qed
    qed
  qed
  then show ?thesis by simp
qed

text \<open>
  In the cyclic group of order 16 with \<open>g = 1\<close>, \<open>h = 5\<close>, the interval
  \<open>[0, 8)\<close> and three steps per walk, \<open>pollard_lambda\<close> returns \<open>5\<close>.
\<close>

theorem pollard_lambda_returns_log_witness:
  "pollard_lambda Z16_scalar Z16_point lcg_sample 3 0 8 1 5 0 = Some (Inr 5) \<and>
   P_eq Z16_point (P_mul Z16_point 5 1) 5"
proof -
  have eq: "\<forall>p q. P_eq Z16_point p q \<longleftrightarrow> id p = id q"
    by (simp add: Z16_point_def)
  have add: "\<forall>p q. id (P_add Z16_point p q) = id p + id q"
    by (simp add: Z16_point_def)
  have mul_add: "\<forall>k j. id (P_mul Z16_point (S_add Z16_scalar k j) 1) =
      id (P_mul Z16_point k 1) + id (P_mul Z16_point j 1)"
    by (simp add: Z16_point_def Z16_scalar_def)
  have mul_sub: "\<forall>k j. id (P_mul Z16_point (S_sub Z16_scalar k j) 1) =
      id (P_mul Z16_point k 1) - id (P_mul Z16_point j 1)"
    by (simp add: Z16_point_def Z16_scalar_def)
  have mul_zero: "id (P_mul Z16_point (S_set_zero Z16_scalar) 1) = 0"
    by (simp add: Z16_point_def Z16_scalar_def)
  have run: "pollard_lambda Z16_scalar Z16_point lcg_sample 3 0 8 1 5 0 = Some (Inr 5)"
    by code_simp
  from pollard_lambda_returns_log[OF eq add mul_add mul_sub mul_zero run] run
  show ?thesis by blast
qed

text \<open>
  Claim C10. The table length \<open>m = most_significant_bit(b - a) - 1\<close> is not at least 1
  for every \<open>a < b\<close>: for \<open>b - a = 1\<close> it is 0. With the scalars modulo 11 (one
  8-bit limb), \<open>a = 0\<close>, \<open>b = 1\<close> and one step per walk, the first step of the tame
  walk takes \<open>% m\<close> with \<open>m = 0\<close>.
\<close>

theorem table_size_zero:
  "seq_val [0 :: 8 word] < seq_val [1 :: 8 word] \<and>
   S_sub (Scalar [11 :: 8 word] sample_lower) [1] [0] = [1] \<and>
   S_most_significant_bit (Scalar [11 :: 8 word] sample_lower) [1] = 1 \<and>
   table_size (Scalar [11 :: 8 word] sample_lower) [0] [1] = 0 \<and>
   pollard_lambda (Scalar [11 :: 8 word] sample_lower) limb_point lcg_sample [1] [0] [1] 1 0 0 =
     Some (Inl DivisionByZero)"
  by code_simp

end
